theory Spec2Isabelle
  imports Main "HOL-Library.AList"
begin

section \<open>The pincode converter, \<open>scripts/convert_pincodes.py\<close>\<close>

subsection \<open>Cells and rows of a table read by \<open>csv.DictReader\<close>\<close>

text \<open>
  A row produced by \<open>csv.DictReader\<close> is a dictionary from column names to cells. A cell
  is a string, or \<open>None\<close> when the line is shorter than the header. Strings are lists of
  characters; a character stands for a code point below 256.
\<close>

datatype pyval = PNone | PStr string

type_synonym row = "string \<rightharpoonup> pyval"

text \<open>\<open>row.get(k)\<close>: the cell under \<open>k\<close>, and \<open>None\<close> when the row has no such column.\<close>

definition dict_get :: "row \<Rightarrow> string \<Rightarrow> pyval" where
  "dict_get r k = (case r k of None \<Rightarrow> PNone | Some v \<Rightarrow> v)"

text \<open>Python truthiness of a cell: \<open>None\<close> and the empty string are false.\<close>

definition truthy :: "pyval \<Rightarrow> bool" where
  "truthy v = (case v of PNone \<Rightarrow> False | PStr s \<Rightarrow> s \<noteq> [])"

text \<open>\<open>a or b\<close>: the left operand when it is true, the right operand otherwise.\<close>

definition py_or :: "pyval \<Rightarrow> pyval \<Rightarrow> pyval" where
  "py_or a b = (if truthy a then a else b)"

text \<open>\<open>a or ''\<close> with a string literal on the right: the result is always a string.\<close>

definition or_str :: "pyval \<Rightarrow> string \<Rightarrow> string" where
  "or_str a d = (case a of PNone \<Rightarrow> d | PStr s \<Rightarrow> (if s \<noteq> [] then s else d))"

text \<open>\<open>str(v)\<close>: a string is itself, \<open>None\<close> becomes the four letters \<open>None\<close>.\<close>

definition str :: "pyval \<Rightarrow> string" where
  "str v = (case v of PNone \<Rightarrow> ''None'' | PStr s \<Rightarrow> s)"

text \<open>
  The characters \<open>str.strip()\<close> removes, among the code points below 256: tab, line feed,
  vertical tab, form feed, carriage return, the separators 0x1C to 0x1F, space, 0x85 and
  0xA0.
\<close>

definition isspace :: "char \<Rightarrow> bool" where
  "isspace c = (c \<in> set [CHR 0x09, CHR 0x0A, CHR 0x0B, CHR 0x0C, CHR 0x0D,
                           CHR 0x1C, CHR 0x1D, CHR 0x1E, CHR 0x1F, CHR 0x20,
                           CHR 0x85, CHR 0xA0])"

definition strip :: "string \<Rightarrow> string" where
  "strip s = rev (dropWhile isspace (rev (dropWhile isspace s)))"

subsection \<open>\<open>normalize_record\<close>\<close>

record pincode_record =
  pincode :: string
  officeName :: string
  district :: string
  state :: string

definition normalize_record :: "row \<Rightarrow> pincode_record" where
  "normalize_record r =
     (let p = py_or (py_or (py_or (dict_get r ''pincode'') (dict_get r ''PINCODE''))
                           (dict_get r ''Pincode''))
                    (dict_get r ''PinCode'');
          office = or_str (py_or (py_or (py_or (py_or (dict_get r ''officeName'')
                                                      (dict_get r ''OFFICENAME''))
                                               (dict_get r ''OfficeName''))
                                        (dict_get r ''office''))
                                 (dict_get r ''Office'')) [];
          district = or_str (py_or (py_or (dict_get r ''district'') (dict_get r ''DISTRICT''))
                                   (dict_get r ''District'')) [];
          state = or_str (py_or (py_or (dict_get r ''state'') (dict_get r ''STATE''))
                                (dict_get r ''State'')) []
      in \<lparr>pincode = strip (str p), officeName = strip office,
          district = strip district, state = strip state\<rparr>)"

subsection \<open>The accumulation loop of \<open>main\<close> over the postal-code rows\<close>

text \<open>
  A Python dictionary keeps its keys in the order of their first insertion; assigning to a
  key that is present replaces the value in place. That is \<open>AList.update\<close> on an
  association list.
\<close>

type_synonym pincode_index = "(string \<times> pincode_record) list"

text \<open>One iteration: the pair is \<open>(records, index)\<close>.\<close>

definition pin_step ::
  "pincode_record list \<times> pincode_index \<Rightarrow> row \<Rightarrow> pincode_record list \<times> pincode_index" where
  "pin_step s r =
     (let rec = normalize_record r
      in if pincode rec = [] then s
         else (fst s @ [rec], AList.update (pincode rec) rec (snd s)))"

definition pin_loop :: "row list \<Rightarrow> pincode_record list \<times> pincode_index" where
  "pin_loop rows = foldl pin_step ([], []) rows"

subsection \<open>The accumulation loop of \<open>main\<close> over the bank rows\<close>

record bank_entry =
  bank :: string
  status :: string

type_synonym bank_map = "(string \<times> bank_entry list) list"

text \<open>\<open>bank_map.setdefault(p, []).append(e)\<close>\<close>

definition setdefault_append :: "string \<Rightarrow> bank_entry \<Rightarrow> bank_map \<Rightarrow> bank_map" where
  "setdefault_append p e m =
     (case map_of m p of
        None \<Rightarrow> AList.update p [e] m
      | Some es \<Rightarrow> AList.update p (es @ [e]) m)"

definition bank_step :: "bank_map \<Rightarrow> row \<Rightarrow> bank_map" where
  "bank_step m b =
     (let p = strip (or_str (py_or (py_or (py_or (dict_get b ''pincode'') (dict_get b ''PINCODE''))
                                          (dict_get b ''Pincode''))
                                   (dict_get b ''PinCode'')) []);
          bank = strip (or_str (py_or (py_or (dict_get b ''bank'') (dict_get b ''Bank''))
                                      (dict_get b ''BANK'')) []);
          status = strip (or_str (py_or (py_or (dict_get b ''status'') (dict_get b ''Status''))
                                        (dict_get b ''STATUS'')) [])
      in if p = [] then m
         else setdefault_append p \<lparr>bank = bank, status = status\<rparr> m)"

definition bank_loop :: "row list \<Rightarrow> bank_map" where
  "bank_loop rows = foldl bank_step [] rows"

subsection \<open>\<open>json.dump(obj, f, ensure_ascii=False, indent=2)\<close>\<close>

text \<open>
  The objects the script serialises are strings, lists and dictionaries with string keys.
  The encoder follows the standard library's \<open>json.encoder\<close>: with
  \<open>ensure_ascii=False\<close> a string is written between double quotes with the backslash,
  the double quote and the control characters below 0x20 escaped
  (\<open>py_encode_basestring\<close>); with \<open>indent=2\<close> the item separator is a comma, the key
  separator is a colon and a space, every item starts on a new line indented by two spaces
  per nesting level, and an empty list or dictionary is written \<open>[]\<close> or \<open>{}\<close>.
\<close>

datatype json = JStr string | JList "json list" | JDict "(string \<times> json) list"

definition hexdigit :: "nat \<Rightarrow> char" where
  "hexdigit n = ''0123456789abcdef'' ! (n mod 16)"

definition escape_char :: "char \<Rightarrow> string" where
  "escape_char c =
     (if c = CHR 0x5C then [CHR 0x5C, CHR 0x5C]
      else if c = CHR 0x22 then [CHR 0x5C, CHR 0x22]
      else if c = CHR 0x08 then [CHR 0x5C, CHR ''b'']
      else if c = CHR 0x0C then [CHR 0x5C, CHR ''f'']
      else if c = CHR 0x0A then [CHR 0x5C, CHR ''n'']
      else if c = CHR 0x0D then [CHR 0x5C, CHR ''r'']
      else if c = CHR 0x09 then [CHR 0x5C, CHR ''t'']
      else if of_char c < (0x20 :: nat)
        then [CHR 0x5C, CHR ''u'', CHR ''0'', CHR ''0'',
              hexdigit (of_char c div 16), hexdigit (of_char c mod 16)]
      else [c])"

definition encode_basestring :: "string \<Rightarrow> string" where
  "encode_basestring s = [CHR 0x22] @ concat (map escape_char s) @ [CHR 0x22]"

definition newline_indent :: "nat \<Rightarrow> string" where
  "newline_indent lvl = CHR 0x0A # replicate (2 * lvl) CHR '' ''"

fun join_with :: "string \<Rightarrow> string list \<Rightarrow> string" where
  "join_with sep [] = []"
| "join_with sep [x] = x"
| "join_with sep (x # y # ys) = x @ sep @ join_with sep (y # ys)"

fun iterencode :: "nat \<Rightarrow> json \<Rightarrow> string" where
  "iterencode lvl (JStr s) = encode_basestring s"
| "iterencode lvl (JList xs) =
     (if xs = [] then ''[]''
      else ''['' @ newline_indent (Suc lvl)
           @ join_with ('','' @ newline_indent (Suc lvl)) (map (iterencode (Suc lvl)) xs)
           @ newline_indent lvl @ '']'')"
| "iterencode lvl (JDict kvs) =
     (if kvs = [] then ''{}''
      else ''{'' @ newline_indent (Suc lvl)
           @ join_with ('','' @ newline_indent (Suc lvl))
               (map (\<lambda>kv. encode_basestring (fst kv) @ '': '' @ iterencode (Suc lvl) (snd kv)) kvs)
           @ newline_indent lvl @ ''}'')"

definition json_dump :: "json \<Rightarrow> string" where
  "json_dump obj = iterencode 0 obj"

text \<open>The script's objects as JSON values; a record is a dictionary with its four keys in
  the order \<open>normalize_record\<close> builds it.\<close>

definition record_json :: "pincode_record \<Rightarrow> json" where
  "record_json rec =
     JDict [(''pincode'', JStr (pincode rec)), (''officeName'', JStr (officeName rec)),
            (''district'', JStr (district rec)), (''state'', JStr (state rec))]"

definition records_json :: "pincode_record list \<Rightarrow> json" where
  "records_json recs = JList (map record_json recs)"

definition index_json :: "pincode_index \<Rightarrow> json" where
  "index_json idx = JDict (map (\<lambda>kv. (fst kv, record_json (snd kv))) idx)"

definition entry_json :: "bank_entry \<Rightarrow> json" where
  "entry_json e = JDict [(''bank'', JStr (bank e)), (''status'', JStr (status e))]"

definition bank_map_json :: "bank_map \<Rightarrow> json" where
  "bank_map_json m = JDict (map (\<lambda>kv. (fst kv, JList (map entry_json (snd kv)))) m)"

subsection \<open>Reading \<open>pincodes.json\<close> back\<close>

text \<open>
  Modelled from the spec: the reader of "writing then reading back \<open>pincodes.json\<close>". The
  repository has no code that reads the file; the reader here is \<open>json.load\<close> of the
  standard library as \<open>json/decoder.py\<close> and \<open>json/scanner.py\<close> define it
  (\<open>py_scanstring\<close>, \<open>JSONObject\<close>, \<open>JSONArray\<close>, \<open>scan_once\<close>, \<open>decode\<close>), on the
  text that follows the current position instead of an index into the text. Values other
  than strings, arrays and objects (numbers, \<open>true\<close>, \<open>false\<close>, \<open>null\<close>), and escapes with
  the letter \<open>u\<close> that are not four hexadecimal digits of a code point below 256, are outside
  the model: the reader answers \<open>NotModelled\<close> there. The recursion is bounded by fuel;
  \<open>json_loads\<close> gives enough of it for any text, so it never answers \<open>OutOfFuel\<close>.
\<close>

datatype decode_error = JSONDecodeError | NotModelled | OutOfFuel

text \<open>\<open>WHITESPACE\<close>: space, tab, line feed, carriage return.\<close>

definition is_ws :: "char \<Rightarrow> bool" where
  "is_ws c = (c \<in> set [CHR '' '', CHR 0x09, CHR 0x0A, CHR 0x0D])"

definition skip_ws :: "string \<Rightarrow> string" where
  "skip_ws s = dropWhile is_ws s"

definition hexval :: "char \<Rightarrow> nat option" where
  "hexval c =
     (let n = of_char c :: nat
      in if 48 \<le> n \<and> n \<le> 57 then Some (n - 48)
         else if 97 \<le> n \<and> n \<le> 102 then Some (n - 87)
         else if 65 \<le> n \<and> n \<le> 70 then Some (n - 55)
         else None)"

text \<open>The table \<open>BACKSLASH\<close> of the one-letter escapes.\<close>

definition backslash :: "char \<Rightarrow> char option" where
  "backslash e =
     (if e = CHR 0x22 then Some (CHR 0x22)
      else if e = CHR 0x5C then Some (CHR 0x5C)
      else if e = CHR ''/'' then Some (CHR ''/'')
      else if e = CHR ''b'' then Some (CHR 0x08)
      else if e = CHR ''f'' then Some (CHR 0x0C)
      else if e = CHR ''n'' then Some (CHR 0x0A)
      else if e = CHR ''r'' then Some (CHR 0x0D)
      else if e = CHR ''t'' then Some (CHR 0x09)
      else None)"

text \<open>The four characters after the escape letter \<open>u\<close>, when they are hexadecimal digits of
  a code point below 256.\<close>

definition decode_uXXXX :: "char \<Rightarrow> char \<Rightarrow> char \<Rightarrow> char \<Rightarrow> decode_error + char" where
  "decode_uXXXX a b c d =
     (case (hexval a, hexval b, hexval c, hexval d) of
        (Some h3, Some h2, Some h1, Some h0) \<Rightarrow>
          (let n = ((h3 * 16 + h2) * 16 + h1) * 16 + h0
           in if n < 256 then Inr (char_of n) else Inl NotModelled)
      | _ \<Rightarrow> Inl NotModelled)"

text \<open>A decoded character in front of the rest of the string.\<close>

definition push :: "char \<Rightarrow> decode_error + (string \<times> string) \<Rightarrow> decode_error + (string \<times> string)" where
  "push ch r = (case r of Inl e \<Rightarrow> Inl e | Inr (s, rest) \<Rightarrow> Inr (ch # s, rest))"

text \<open>\<open>py_scanstring\<close> with \<open>strict=True\<close>, from the character after the opening quote: the
  string, and the text after the closing quote.\<close>

fun scanstring :: "string \<Rightarrow> decode_error + (string \<times> string)" where
  "scanstring [] = Inl JSONDecodeError"
| "scanstring (c # cs) =
     (if c = CHR 0x22 then Inr ([], cs)
      else if c = CHR 0x5C then
        (case cs of
           [] \<Rightarrow> Inl JSONDecodeError
         | esc # es \<Rightarrow>
             if esc = CHR ''u'' then
               (case es of
                  a # b # c' # d # rest \<Rightarrow>
                    (case decode_uXXXX a b c' d of
                       Inl e \<Rightarrow> Inl e
                     | Inr ch \<Rightarrow> push ch (scanstring rest))
                | _ \<Rightarrow> Inl JSONDecodeError)
             else
               (case backslash esc of
                  None \<Rightarrow> Inl JSONDecodeError
                | Some ch \<Rightarrow> push ch (scanstring es)))
      else if of_char c < (0x20 :: nat) then Inl JSONDecodeError
      else push c (scanstring cs))"

text \<open>\<open>dict(pairs)\<close>: a key that comes again replaces the value of the first.\<close>

definition dict_of :: "(string \<times> json) list \<Rightarrow> (string \<times> json) list" where
  "dict_of pairs = foldl (\<lambda>d kv. AList.update (fst kv) (snd kv) d) [] pairs"

text \<open>
  \<open>scan_once\<close> reads one value. \<open>JSONArray\<close> and \<open>JSONObject\<close> are the loops of the functions
  of these names, with the values or pairs read so far; \<open>JSONObject\<close> starts after the
  opening quote of a key.
\<close>

fun scan_once :: "nat \<Rightarrow> string \<Rightarrow> decode_error + (json \<times> string)"
  and JSONArray :: "nat \<Rightarrow> json list \<Rightarrow> string \<Rightarrow> decode_error + (json \<times> string)"
  and JSONObject :: "nat \<Rightarrow> (string \<times> json) list \<Rightarrow> string \<Rightarrow> decode_error + (json \<times> string)"
where
  "scan_once 0 s = Inl OutOfFuel"
| "scan_once (Suc n) [] = Inl JSONDecodeError"
| "scan_once (Suc n) (c # cs) =
     (if c = CHR 0x22 then
        (case scanstring cs of
           Inl e \<Rightarrow> Inl e
         | Inr (s, rest) \<Rightarrow> Inr (JStr s, rest))
      else if c = CHR ''{'' then
        (case skip_ws cs of
           [] \<Rightarrow> Inl JSONDecodeError
         | d # rest \<Rightarrow>
             if d = CHR ''}'' then Inr (JDict [], rest)
             else if d = CHR 0x22 then JSONObject n [] rest
             else Inl JSONDecodeError)
      else if c = CHR ''['' then
        (case skip_ws cs of
           [] \<Rightarrow> Inl JSONDecodeError
         | d # rest \<Rightarrow>
             if d = CHR '']'' then Inr (JList [], rest)
             else JSONArray n [] (d # rest))
      else if c \<in> set ''ntf-0123456789NI'' then Inl NotModelled
      else Inl JSONDecodeError)"
| "JSONArray 0 vs s = Inl OutOfFuel"
| "JSONArray (Suc n) vs s =
     (case scan_once n s of
        Inl e \<Rightarrow> Inl e
      | Inr (v, rest) \<Rightarrow>
          (case skip_ws rest of
             [] \<Rightarrow> Inl JSONDecodeError
           | d # rest' \<Rightarrow>
               if d = CHR '']'' then Inr (JList (vs @ [v]), rest')
               else if d = CHR '','' then JSONArray n (vs @ [v]) (skip_ws rest')
               else Inl JSONDecodeError))"
| "JSONObject 0 ps s = Inl OutOfFuel"
| "JSONObject (Suc n) ps s =
     (case scanstring s of
        Inl e \<Rightarrow> Inl e
      | Inr (key, rest) \<Rightarrow>
          (case skip_ws rest of
             [] \<Rightarrow> Inl JSONDecodeError
           | d # rest1 \<Rightarrow>
               if d \<noteq> CHR '':'' then Inl JSONDecodeError
               else
                 (case scan_once n (skip_ws rest1) of
                    Inl e \<Rightarrow> Inl e
                  | Inr (v, rest2) \<Rightarrow>
                      (case skip_ws rest2 of
                         [] \<Rightarrow> Inl JSONDecodeError
                       | d' # rest3 \<Rightarrow>
                           if d' = CHR ''}'' then Inr (JDict (dict_of (ps @ [(key, v)])), rest3)
                           else if d' = CHR '','' then
                             (case skip_ws rest3 of
                                [] \<Rightarrow> Inl JSONDecodeError
                              | q # rest4 \<Rightarrow>
                                  if q = CHR 0x22 then JSONObject n (ps @ [(key, v)]) rest4
                                  else Inl JSONDecodeError)
                           else Inl JSONDecodeError))))"

text \<open>Modelled from the spec: reading the file back, as \<open>decode\<close> of \<open>json/decoder.py\<close> does:
  one value, with whitespace around it and nothing else.\<close>

definition json_loads :: "string \<Rightarrow> decode_error + json" where
  "json_loads s =
     (case scan_once (Suc (2 * length s)) (skip_ws s) of
        Inl e \<Rightarrow> Inl e
      | Inr (obj, rest) \<Rightarrow> if skip_ws rest = [] then Inr obj else Inl JSONDecodeError)"

subsection \<open>The command line\<close>

text \<open>
  The command line after \<open>argparse\<close> has split it: for each of the three options, the value
  given, if any. \<open>parse_args\<close> stops the process with a usage error (exit status 2) when the
  required \<open>--pincsv\<close> is missing; \<open>--outdir\<close> defaults to \<open>mock-api\<close>. Command lines with
  other options are not part of the model.
\<close>

record cmdline =
  opt_pincsv :: "string option"
  opt_bankcsv :: "string option"
  opt_outdir :: "string option"

record namespace =
  pincsv :: string
  bankcsv :: pyval
  outdir :: string

datatype error =
    UsageError
  | FileNotFoundError string
  | IsADirectoryError string
  | FileExistsError string
  | NotADirectoryError string
  | CsvError string

definition parse_args :: "cmdline \<Rightarrow> error + namespace" where
  "parse_args cl =
     (case opt_pincsv cl of
        None \<Rightarrow> Inl UsageError
      | Some p \<Rightarrow>
          Inr \<lparr>pincsv = p,
               bankcsv = (case opt_bankcsv cl of None \<Rightarrow> PNone | Some b \<Rightarrow> PStr b),
               outdir = (case opt_outdir cl of None \<Rightarrow> ''mock-api'' | Some d \<Rightarrow> d)\<rparr>)"

subsection \<open>The file system\<close>

text \<open>
  The world the script runs in: the directories that exist, the files with their text, and
  the file-system operations performed so far, in order. Paths are POSIX paths, compared as
  strings. An operation is recorded when it is attempted, whether it succeeds or not. The
  lines the script prints are not modelled.
\<close>

datatype fs_op = Makedirs string | OpenRead string | OpenWrite string

record world =
  dirs :: "string set"
  files :: "string \<rightharpoonup> string"
  trace :: "fs_op list"

text \<open>A step that may raise: the error or the result, and the world after it.\<close>

type_synonym 'a io = "world \<Rightarrow> (error + 'a) \<times> world"

definition io_bind :: "'a io \<Rightarrow> ('a \<Rightarrow> 'b io) \<Rightarrow> 'b io" where
  "io_bind m f w = (case m w of (Inl e, w') \<Rightarrow> (Inl e, w') | (Inr x, w') \<Rightarrow> f x w')"

definition io_return :: "'a \<Rightarrow> 'a io" where
  "io_return x w = (Inr x, w)"

text \<open>The proper ancestors of a path: its prefixes that end just before a separator.\<close>

definition parents :: "string \<Rightarrow> string list" where
  "parents p = map (\<lambda>i. take i p) (filter (\<lambda>i. p ! i = CHR ''/'') [1..<length p])"

text \<open>
  In a chain of directories to create, from the outermost on, the first one that cannot be
  created: the one that follows a path that is a file.
\<close>

fun blocked :: "(string \<Rightarrow> bool) \<Rightarrow> string list \<Rightarrow> string option" where
  "blocked is_file (q # q' # qs) = (if is_file q then Some q' else blocked is_file (q' # qs))"
| "blocked is_file qs = None"

text \<open>
  \<open>os.makedirs(name, exist_ok=True)\<close>: creates the directory and its missing ancestors, and
  accepts a directory that exists. It raises when the name is empty, when the name is
  a file, or when an ancestor is a file; in the last case the error names the directory
  under that file, which \<open>mkdir\<close> could not create.
\<close>

definition makedirs :: "string \<Rightarrow> unit io" where
  "makedirs name w =
     (let w1 = w\<lparr>trace := trace w @ [Makedirs name]\<rparr>
      in if name = [] then (Inl (FileNotFoundError name), w1)
         else if files w name \<noteq> None then (Inl (FileExistsError name), w1)
         else
           (case blocked (\<lambda>q. files w q \<noteq> None) (parents name @ [name]) of
              Some q \<Rightarrow> (Inl (NotADirectoryError q), w1)
            | None \<Rightarrow> (Inr (), w1\<lparr>dirs := dirs w \<union> set (parents name) \<union> {name}\<rparr>)))"

text \<open>
  \<open>read_csv(path)\<close>: \<open>open\<close> raises when there is no file at the path; otherwise the rows are
  what \<open>csv.DictReader\<close> makes of the file's text. The reader is the parameter \<open>csv\<close>; it
  may raise too (the text is not UTF-8, or is not a table the reader accepts).
\<close>

definition read_csv :: "(string \<Rightarrow> error + row list) \<Rightarrow> string \<Rightarrow> row list io" where
  "read_csv csv path w =
     (let w1 = w\<lparr>trace := trace w @ [OpenRead path]\<rparr>
      in case files w path of
           None \<Rightarrow>
             (Inl (if path \<in> dirs w then IsADirectoryError path else FileNotFoundError path), w1)
         | Some body \<Rightarrow> (csv body, w1))"

text \<open>
  \<open>with open(path, 'w', encoding='utf-8') as f: json.dump(obj, f, ensure_ascii=False,
  indent=2)\<close>, for a path inside the output directory, which exists at that point: the file
  is created or replaced; \<open>open\<close> raises when the path is a directory.
\<close>

definition dump_to :: "string \<Rightarrow> json \<Rightarrow> unit io" where
  "dump_to path obj w =
     (let w1 = w\<lparr>trace := trace w @ [OpenWrite path]\<rparr>
      in if path \<in> dirs w then (Inl (IsADirectoryError path), w1)
         else (Inr (), w1\<lparr>files := (files w)(path \<mapsto> json_dump obj)\<rparr>))"

text \<open>\<open>os.path.join(a, b)\<close> on POSIX.\<close>

definition path_join :: "string \<Rightarrow> string \<Rightarrow> string" where
  "path_join a b =
     (if b \<noteq> [] \<and> hd b = CHR ''/'' then b
      else if a = [] \<or> last a = CHR ''/'' then a @ b
      else a @ ''/'' @ b)"

subsection \<open>\<open>main\<close>\<close>

definition main :: "(string \<Rightarrow> error + row list) \<Rightarrow> cmdline \<Rightarrow> unit io" where
  "main csv cl w =
     (case parse_args cl of
        Inl e \<Rightarrow> (Inl e, w)
      | Inr args \<Rightarrow>
          io_bind (makedirs (outdir args)) (\<lambda>_.
          io_bind (read_csv csv (pincsv args)) (\<lambda>rows.
          let records = fst (pin_loop rows);
              index = snd (pin_loop rows);
              pincodes_path = path_join (outdir args) ''pincodes.json'';
              index_path = path_join (outdir args) ''index.json''
          in
          io_bind (dump_to pincodes_path (records_json records)) (\<lambda>_.
          io_bind (dump_to index_path (index_json index)) (\<lambda>_.
          if truthy (bankcsv args) then
            io_bind (read_csv csv (str (bankcsv args))) (\<lambda>bank_rows.
            let bank_map = bank_loop bank_rows;
                bank_path = path_join (outdir args) ''bank_serviceability.json''
            in dump_to bank_path (bank_map_json bank_map))
          else io_return ())))) w)"

text \<open>The exit status of the process: 0 when \<open>main\<close> returns, 2 for the usage error of
  \<open>argparse\<close>, 1 for an exception that is not caught.\<close>

definition exit_status :: "error + unit \<Rightarrow> nat" where
  "exit_status res = (case res of Inr _ \<Rightarrow> 0 | Inl UsageError \<Rightarrow> 2 | Inl _ \<Rightarrow> 1)"

text \<open>The paths opened for writing, and those opened for reading, in a list of operations.\<close>

definition writes_of :: "fs_op list \<Rightarrow> string list" where
  "writes_of ops = concat (map (\<lambda>op. case op of OpenWrite p \<Rightarrow> [p] | _ \<Rightarrow> []) ops)"

definition reads_of :: "fs_op list \<Rightarrow> string list" where
  "reads_of ops = concat (map (\<lambda>op. case op of OpenRead p \<Rightarrow> [p] | _ \<Rightarrow> []) ops)"

text \<open>The output directory of a command line, and when \<open>makedirs\<close> succeeds on a name.\<close>

definition outdir_of :: "cmdline \<Rightarrow> string" where
  "outdir_of cl = (case opt_outdir cl of None \<Rightarrow> ''mock-api'' | Some d \<Rightarrow> d)"

definition creatable :: "world \<Rightarrow> string \<Rightarrow> bool" where
  "creatable w d =
     (d \<noteq> [] \<and> files w d = None \<and> \<not> list_ex (\<lambda>q. files w q \<noteq> None) (parents d))"

section \<open>The specification's vocabulary\<close>

text \<open>
  The specification describes a field as "the first non-empty value among several
  case-variant column names", trimmed, with the empty string when there is none. These
  definitions follow those words; the theorems compare them with the code.
\<close>

definition pincode_keys :: "string list" where
  "pincode_keys = [''pincode'', ''PINCODE'', ''Pincode'', ''PinCode'']"

definition office_keys :: "string list" where
  "office_keys = [''officeName'', ''OFFICENAME'', ''OfficeName'', ''office'', ''Office'']"

definition district_keys :: "string list" where
  "district_keys = [''district'', ''DISTRICT'', ''District'']"

definition state_keys :: "string list" where
  "state_keys = [''state'', ''STATE'', ''State'']"

definition bank_keys :: "string list" where
  "bank_keys = [''bank'', ''Bank'', ''BANK'']"

definition status_keys :: "string list" where
  "status_keys = [''status'', ''Status'', ''STATUS'']"

fun first_nonempty :: "row \<Rightarrow> string list \<Rightarrow> string option" where
  "first_nonempty r [] = None"
| "first_nonempty r (k # ks) =
     (case r k of
        Some (PStr s) \<Rightarrow> if s \<noteq> [] then Some s else first_nonempty r ks
      | _ \<Rightarrow> first_nonempty r ks)"

definition field_or_empty :: "row \<Rightarrow> string list \<Rightarrow> string" where
  "field_or_empty r ks = (case first_nonempty r ks of None \<Rightarrow> [] | Some s \<Rightarrow> s)"

text \<open>The key and the entry the specification gives a bank row.\<close>

definition bank_pincode :: "row \<Rightarrow> string" where
  "bank_pincode b = strip (field_or_empty b pincode_keys)"

definition bank_entry_of :: "row \<Rightarrow> bank_entry" where
  "bank_entry_of b = \<lparr>bank = strip (field_or_empty b bank_keys),
                      status = strip (field_or_empty b status_keys)\<rparr>"

text \<open>
  The objects of the output files, as the specification's section on the output files has
  them: \<open>{pincode, officeName, district, state}\<close> for a record and \<open>{bank, status}\<close> for a
  bank entry.
\<close>

definition record_object :: "pincode_record \<Rightarrow> json" where
  "record_object rec =
     JDict [(''pincode'', JStr (pincode rec)), (''officeName'', JStr (officeName rec)),
            (''district'', JStr (district rec)), (''state'', JStr (state rec))]"

definition entry_object :: "bank_entry \<Rightarrow> json" where
  "entry_object e = JDict [(''bank'', JStr (bank e)), (''status'', JStr (status e))]"

text \<open>The value under a key of a JSON object, and the elements of a JSON array.\<close>

definition object_get :: "json \<Rightarrow> string \<Rightarrow> json option" where
  "object_get obj k = (case obj of JDict kvs \<Rightarrow> map_of kvs k | _ \<Rightarrow> None)"

definition array_items :: "json \<Rightarrow> json list" where
  "array_items obj = (case obj of JList xs \<Rightarrow> xs | _ \<Rightarrow> [])"

text \<open>
  The index agrees with the array: its keys are distinct, and each key maps to a record
  with that pincode, namely the last element of the array with that pincode.
\<close>

definition index_consistent :: "pincode_record list \<times> pincode_index \<Rightarrow> bool" where
  "index_consistent s =
     (distinct (map fst (snd s)) \<and>
      (\<forall>(k, v) \<in> set (snd s).
         pincode v = k \<and> v \<in> set (fst s) \<and>
         v = last (filter (\<lambda>rec. pincode rec = k) (fst s))))"

section \<open>Notions for the proofs\<close>

text \<open>The records of the rows that are kept, and the index built from a list of records.\<close>

definition kept :: "row list \<Rightarrow> pincode_record list" where
  "kept rows = filter (\<lambda>rec. pincode rec \<noteq> []) (map normalize_record rows)"

definition index_of :: "pincode_index \<Rightarrow> pincode_record list \<Rightarrow> pincode_index" where
  "index_of idx recs = foldl (\<lambda>i rec. AList.update (pincode rec) rec i) idx recs"

text \<open>The sequence a key has in the bank map, empty for a key that is not there.\<close>

definition seq_of :: "bank_map \<Rightarrow> string \<Rightarrow> bank_entry list" where
  "seq_of m k = (case map_of m k of None \<Rightarrow> [] | Some es \<Rightarrow> es)"

text \<open>A JSON value in which no dictionary has a key twice, as Python's dictionaries are.\<close>

fun wf_json :: "json \<Rightarrow> bool" where
  "wf_json (JStr s) = True"
| "wf_json (JList xs) = list_all wf_json xs"
| "wf_json (JDict kvs) = (distinct (map fst kvs) \<and> list_all (\<lambda>kv. wf_json (snd kv)) kvs)"

text \<open>The characters a value's text can start with.\<close>

definition opener :: "char \<Rightarrow> bool" where
  "opener c = (c = CHR 0x22 \<or> c = CHR ''['' \<or> c = CHR ''{'')"

text \<open>What a value's text reads back as, for any fuel that covers the text.\<close>

definition reads_back :: "json \<Rightarrow> bool" where
  "reads_back v =
     (\<forall>lvl fuel rest. length (iterencode lvl v) \<le> fuel \<longrightarrow>
        scan_once fuel (iterencode lvl v @ rest) = Inr (v, rest))"

text \<open>The text of one item of a dictionary: the key, the separator, the value.\<close>

definition item_text :: "nat \<Rightarrow> string \<times> json \<Rightarrow> string" where
  "item_text lvl kv = encode_basestring (fst kv) @ '': '' @ iterencode lvl (snd kv)"

text \<open>The reader consumes text: what is left after a value is shorter than what it
  started from.\<close>

definition progress :: "nat \<Rightarrow> bool" where
  "progress n =
     ((\<forall>s v rest. scan_once n s = Inr (v, rest) \<longrightarrow> length rest < length s) \<and>
      (\<forall>vs s v rest. JSONArray n vs s = Inr (v, rest) \<longrightarrow> length rest < length s) \<and>
      (\<forall>ps s v rest. JSONObject n ps s = Inr (v, rest) \<longrightarrow> length rest < length s))"

text \<open>Fuel above twice the length of the text is never used up.\<close>

definition enough :: "nat \<Rightarrow> bool" where
  "enough n =
     ((\<forall>s. 2 * length s < n \<longrightarrow> scan_once n s \<noteq> Inl OutOfFuel) \<and>
      (\<forall>vs s. 2 * length s + 1 < n \<longrightarrow> JSONArray n vs s \<noteq> Inl OutOfFuel) \<and>
      (\<forall>ps s. 2 * length s + 1 < n \<longrightarrow> JSONObject n ps s \<noteq> Inl OutOfFuel))"

text \<open>
  The world after the postal-code part of a run that succeeds, and the bank part of the
  run.
\<close>

definition pincode_phase :: "cmdline \<Rightarrow> string \<Rightarrow> row list \<Rightarrow> world \<Rightarrow> world" where
  "pincode_phase cl p rows w =
     w\<lparr>dirs := dirs w \<union> set (parents (outdir_of cl)) \<union> {outdir_of cl},
       trace := trace w @ [Makedirs (outdir_of cl), OpenRead p,
                              OpenWrite (path_join (outdir_of cl) ''pincodes.json''),
                              OpenWrite (path_join (outdir_of cl) ''index.json'')],
       files := (files w)
         (path_join (outdir_of cl) ''pincodes.json''
            \<mapsto> json_dump (records_json (fst (pin_loop rows))),
          path_join (outdir_of cl) ''index.json''
            \<mapsto> json_dump (index_json (snd (pin_loop rows))))\<rparr>"

definition bank_phase :: "(string \<Rightarrow> error + row list) \<Rightarrow> cmdline \<Rightarrow> unit io" where
  "bank_phase csv cl =
     (case opt_bankcsv cl of
        None \<Rightarrow> io_return ()
      | Some b \<Rightarrow>
          if b = [] then io_return ()
          else io_bind (read_csv csv b) (\<lambda>bank_rows.
                 dump_to (path_join (outdir_of cl) ''bank_serviceability.json'')
                   (bank_map_json (bank_loop bank_rows))))"

section \<open>The field selection of the code is the specification's\<close>

lemma first_nonempty_Cons:
  "first_nonempty r (k # ks) =
     (if truthy (dict_get r k) then Some (str (dict_get r k)) else first_nonempty r ks)"
  by (simp add: truthy_def dict_get_def str_def split: option.splits pyval.splits)

lemma first_nonempty_nonempty: "first_nonempty r ks = Some s \<Longrightarrow> s \<noteq> []"
  by (induction ks) (auto split: option.splits pyval.splits if_splits)

declare first_nonempty.simps(2) [simp del]

lemma py_or_truthy: "truthy a \<Longrightarrow> py_or a b = a"
  by (simp add: py_or_def)

lemma py_or_falsy: "\<not> truthy a \<Longrightarrow> py_or a b = b"
  by (simp add: py_or_def)

lemma foldl_py_or_truthy: "truthy a \<Longrightarrow> foldl py_or a vs = a"
  by (induction vs) (simp_all add: py_or_truthy)

lemma truthy_PStr_str: "truthy a \<Longrightarrow> a = PStr (str a)"
  by (cases a) (simp_all add: truthy_def str_def)

text \<open>A chain \<open>a or b or ... or z\<close> is the first true cell, and \<open>z\<close> when none is true.\<close>

lemma or_chain_first_nonempty:
  "foldl py_or (dict_get r k) (map (dict_get r) ks) =
     (case first_nonempty r (k # ks) of
        Some s \<Rightarrow> PStr s
      | None \<Rightarrow> dict_get r (last (k # ks)))"
proof (induction ks arbitrary: k)
  case Nil
  show ?case
    using truthy_PStr_str [of "dict_get r k"] by (simp add: first_nonempty_Cons)
next
  case (Cons k' ks)
  show ?case
  proof (cases "truthy (dict_get r k)")
    case True
    then show ?thesis
      using truthy_PStr_str [of "dict_get r k"]
      by (simp add: first_nonempty_Cons py_or_truthy foldl_py_or_truthy)
  next
    case False
    then show ?thesis
      using Cons.IH [of k']
      by (simp add: first_nonempty_Cons py_or_falsy split: option.splits)
  qed
qed

lemma or_str_PStr: "s \<noteq> [] \<Longrightarrow> or_str (PStr s) d = s"
  by (simp add: or_str_def)

lemma or_str_falsy: "\<not> truthy a \<Longrightarrow> or_str a d = d"
  by (cases a) (simp_all add: or_str_def truthy_def)

lemma first_nonempty_None_falsy:
  "first_nonempty r ks = None \<Longrightarrow> k \<in> set ks \<Longrightarrow> \<not> truthy (dict_get r k)"
  by (induction ks) (auto simp: first_nonempty_Cons split: if_splits)

lemma or_str_chain:
  "or_str (foldl py_or (dict_get r k) (map (dict_get r) ks)) [] = field_or_empty r (k # ks)"
proof (cases "first_nonempty r (k # ks)")
  case None
  then have "\<not> truthy (dict_get r (last (k # ks)))"
    using first_nonempty_None_falsy [of r "k # ks" "last (k # ks)"] by simp
  with None show ?thesis
    unfolding field_or_empty_def or_chain_first_nonempty by (simp add: or_str_falsy)
next
  case (Some s)
  then show ?thesis
    unfolding field_or_empty_def or_chain_first_nonempty
    using first_nonempty_nonempty [OF Some] by (simp add: or_str_PStr)
qed

lemma normalize_record_fields:
  "officeName (normalize_record r) = strip (field_or_empty r office_keys)"
  "district (normalize_record r) = strip (field_or_empty r district_keys)"
  "state (normalize_record r) = strip (field_or_empty r state_keys)"
  using or_str_chain [of r "''officeName''" "[''OFFICENAME'', ''OfficeName'', ''office'', ''Office'']"]
        or_str_chain [of r "''district''" "[''DISTRICT'', ''District'']"]
        or_str_chain [of r "''state''" "[''STATE'', ''State'']"]
  by (simp_all add: normalize_record_def office_keys_def district_keys_def state_keys_def)

text \<open>The pincode has no final \<open>or ''\<close>: with no true cell it is \<open>str\<close> of the last lookup.\<close>

lemma normalize_record_pincode:
  "pincode (normalize_record r) =
     strip (case first_nonempty r pincode_keys of
              Some s \<Rightarrow> s
            | None \<Rightarrow> str (dict_get r ''PinCode''))"
  using or_chain_first_nonempty [of r "''pincode''" "[''PINCODE'', ''Pincode'', ''PinCode'']"]
  by (simp add: normalize_record_def pincode_keys_def str_def split: option.splits)

text \<open>
  When the loop drops a row: the first non-empty pincode cell is all whitespace, or there
  is no non-empty pincode cell and the row has a column \<open>PinCode\<close> that is empty.
\<close>

lemma row_dropped_iff:
  "pincode (normalize_record r) = [] \<longleftrightarrow>
     (case first_nonempty r pincode_keys of
        Some c \<Rightarrow> strip c = []
      | None \<Rightarrow> r ''PinCode'' = Some (PStr []))"
proof (cases "first_nonempty r pincode_keys")
  case (Some c)
  then show ?thesis
    by (simp add: normalize_record_pincode)
next
  case None
  then have "\<not> truthy (dict_get r ''PinCode'')"
    by (rule first_nonempty_None_falsy) (simp add: pincode_keys_def)
  then have "strip (str (dict_get r ''PinCode'')) = [] \<longleftrightarrow> r ''PinCode'' = Some (PStr [])"
    by (auto simp: truthy_def dict_get_def str_def strip_def isspace_def
             split: option.splits pyval.splits)
  with None show ?thesis
    by (simp add: normalize_record_pincode)
qed

lemma bank_step_eq:
  "bank_step m b =
     (if bank_pincode b = [] then m
      else setdefault_append (bank_pincode b) (bank_entry_of b) m)"
  using or_str_chain [of b "''pincode''" "[''PINCODE'', ''Pincode'', ''PinCode'']"]
        or_str_chain [of b "''bank''" "[''Bank'', ''BANK'']"]
        or_str_chain [of b "''status''" "[''Status'', ''STATUS'']"]
  by (simp add: bank_step_def bank_pincode_def bank_entry_of_def pincode_keys_def
        bank_keys_def status_keys_def)

section \<open>The accumulation loops\<close>

lemma foldl_pin_step:
  "foldl pin_step (recs, idx) rows = (recs @ kept rows, index_of idx (kept rows))"
  by (induction rows arbitrary: recs idx)
     (simp_all add: kept_def index_of_def pin_step_def Let_def)

lemma pin_loop_eq: "pin_loop rows = (kept rows, index_of [] (kept rows))"
  by (simp add: pin_loop_def foldl_pin_step)

lemma map_of_index_of:
  "map_of (index_of idx recs) k =
     (if filter (\<lambda>rec. pincode rec = k) recs = [] then map_of idx k
      else Some (last (filter (\<lambda>rec. pincode rec = k) recs)))"
  by (induction recs arbitrary: idx) (auto simp: index_of_def update_conv')

lemma distinct_index_of:
  "distinct (map fst idx) \<Longrightarrow> distinct (map fst (index_of idx recs))"
  by (induction recs arbitrary: idx) (simp_all add: index_of_def distinct_update)

lemma kept_filter_map:
  "kept rows = map normalize_record (filter (\<lambda>r. pincode (normalize_record r) \<noteq> []) rows)"
  by (simp add: kept_def filter_map comp_def)

lemma kept_same:
  "k \<noteq> [] \<Longrightarrow> filter (\<lambda>rec. pincode rec = k) (kept rows) =
     map normalize_record (filter (\<lambda>r. pincode (normalize_record r) = k) rows)"
  by (induction rows) (auto simp: kept_def)

lemma last_filter_nth:
  assumes "i < length xs" and "P (xs ! i)"
    and "\<forall>j. i < j \<and> j < length xs \<longrightarrow> \<not> P (xs ! j)"
  shows "last (filter P xs) = xs ! i"
proof -
  have split: "xs = take i xs @ xs ! i # drop (Suc i) xs"
    using assms(1) by (rule id_take_nth_drop)
  have "\<not> P y" if "y \<in> set (drop (Suc i) xs)" for y
  proof -
    from that obtain j where "j < length xs - Suc i" and "y = xs ! (Suc i + j)"
      by (auto simp: in_set_conv_nth)
    with assms(3) show ?thesis by simp
  qed
  then have "filter P (drop (Suc i) xs) = []"
    by (simp add: filter_empty_conv)
  then have "filter P xs = filter P (take i xs) @ [xs ! i]"
    using assms(2) by (subst split) simp
  then show ?thesis by simp
qed

lemma index_of_consistent: "index_consistent (recs, index_of [] recs)"
proof -
  have d: "distinct (map fst (index_of [] recs))"
    by (rule distinct_index_of) simp
  have "pincode v = k \<and> v \<in> set recs \<and> v = last (filter (\<lambda>rec. pincode rec = k) recs)"
    if kv: "(k, v) \<in> set (index_of [] recs)" for k v
  proof -
    from d kv have m: "map_of (index_of [] recs) k = Some v"
      by simp
    then have ne: "filter (\<lambda>rec. pincode rec = k) recs \<noteq> []"
      and v: "v = last (filter (\<lambda>rec. pincode rec = k) recs)"
      by (auto simp: map_of_index_of split: if_splits)
    from ne have "last (filter (\<lambda>rec. pincode rec = k) recs)
                    \<in> set (filter (\<lambda>rec. pincode rec = k) recs)"
      by (rule last_in_set)
    with v show ?thesis by simp
  qed
  with d show ?thesis
    by (auto simp: index_consistent_def)
qed

lemma map_of_setdefault_append:
  "map_of (setdefault_append p e m) = (map_of m)(p \<mapsto> seq_of m p @ [e])"
  by (simp add: setdefault_append_def seq_of_def update_conv' split: option.splits)

lemma distinct_setdefault_append:
  "distinct (map fst m) \<Longrightarrow> distinct (map fst (setdefault_append p e m))"
  by (simp add: setdefault_append_def distinct_update split: option.splits)

lemma map_of_foldl_bank_step:
  "map_of (foldl bank_step m rows) k =
     (if k = [] \<or> filter (\<lambda>b. bank_pincode b = k) rows = [] then map_of m k
      else Some (seq_of m k @ map bank_entry_of (filter (\<lambda>b. bank_pincode b = k) rows)))"
proof (induction rows arbitrary: m)
  case Nil
  show ?case by simp
next
  case (Cons b rows)
  show ?case
    unfolding foldl_Cons Cons.IH
    by (auto simp: bank_step_eq map_of_setdefault_append seq_of_def)
qed

lemma distinct_foldl_bank_step:
  "distinct (map fst m) \<Longrightarrow> distinct (map fst (foldl bank_step m rows))"
  by (induction rows arbitrary: m) (simp_all add: bank_step_eq distinct_setdefault_append)

text \<open>The equations that evaluate the script on a concrete table.\<close>

lemmas eval_defs = normalize_record_def dict_get_def py_or_def truthy_def or_str_def
  str_def strip_def isspace_def pin_loop_def pin_step_def Let_def field_or_empty_def
  first_nonempty.simps(2) pincode_keys_def office_keys_def district_keys_def state_keys_def

section \<open>The run and the file system\<close>

lemma parse_args_Some:
  "opt_pincsv cl = Some p \<Longrightarrow>
   parse_args cl = Inr \<lparr>pincsv = p,
      bankcsv = (case opt_bankcsv cl of None \<Rightarrow> PNone | Some b \<Rightarrow> PStr b),
      outdir = outdir_of cl\<rparr>"
  by (simp add: parse_args_def outdir_of_def)

lemma blocked_None: "blocked f (ps @ [n]) = None \<longleftrightarrow> \<not> list_ex f ps"
proof (induction ps)
  case Nil
  show ?case by simp
next
  case (Cons q ps)
  then show ?case
    by (cases ps) auto
qed

lemma makedirs_ok:
  "creatable w d \<Longrightarrow>
   makedirs d w = (Inr (), w\<lparr>trace := trace w @ [Makedirs d],
                            dirs := dirs w \<union> set (parents d) \<union> {d}\<rparr>)"
  using blocked_None [of "\<lambda>q. files w q \<noteq> None" "parents d" d]
  by (auto simp: makedirs_def creatable_def Let_def split: option.splits)

lemma makedirs_fail:
  "\<not> creatable w d \<Longrightarrow>
   \<exists>e. makedirs d w = (Inl e, w\<lparr>trace := trace w @ [Makedirs d]\<rparr>)"
  using blocked_None [of "\<lambda>q. files w q \<noteq> None" "parents d" d]
  by (auto simp: makedirs_def creatable_def Let_def split: option.splits)

lemma read_csv_missing:
  "files w p = None \<Longrightarrow>
   read_csv csv p w =
     (Inl (if p \<in> dirs w then IsADirectoryError p else FileNotFoundError p),
      w\<lparr>trace := trace w @ [OpenRead p]\<rparr>)"
  by (simp add: read_csv_def Let_def)

lemma read_csv_present:
  "files w p = Some body \<Longrightarrow>
   read_csv csv p w = (csv body, w\<lparr>trace := trace w @ [OpenRead p]\<rparr>)"
  by (simp add: read_csv_def Let_def)

lemma dump_to_ok:
  "path \<notin> dirs w \<Longrightarrow>
   dump_to path obj w =
     (Inr (), w\<lparr>trace := trace w @ [OpenWrite path],
                files := (files w)(path \<mapsto> json_dump obj)\<rparr>)"
  by (simp add: dump_to_def Let_def)

lemma writes_of_append [simp]: "writes_of (xs @ ys) = writes_of xs @ writes_of ys"
  by (simp add: writes_of_def)

lemma writes_of_simps [simp]:
  "writes_of [] = []"
  "writes_of (Makedirs p # ops) = writes_of ops"
  "writes_of (OpenRead p # ops) = writes_of ops"
  "writes_of (OpenWrite p # ops) = p # writes_of ops"
  by (simp_all add: writes_of_def)

lemma reads_of_simps [simp]:
  "reads_of [] = []"
  "reads_of (Makedirs p # ops) = reads_of ops"
  "reads_of (OpenRead p # ops) = p # reads_of ops"
  "reads_of (OpenWrite p # ops) = reads_of ops"
  by (simp_all add: reads_of_def)

lemma exit_status_Inl: "exit_status (Inl e) \<noteq> 0"
  by (cases e) (simp_all add: exit_status_def)

text \<open>The run when there is no file at the path of the postal-code table.\<close>

lemma main_missing_table:
  assumes "opt_pincsv cl = Some p" and "files w p = None"
  shows "creatable w (outdir_of cl) \<Longrightarrow>
           main csv cl w =
             (Inl (if p \<in> dirs w \<union> set (parents (outdir_of cl)) \<union> {outdir_of cl}
                   then IsADirectoryError p else FileNotFoundError p),
              w\<lparr>trace := trace w @ [Makedirs (outdir_of cl), OpenRead p],
                dirs := dirs w \<union> set (parents (outdir_of cl)) \<union> {outdir_of cl}\<rparr>)"
    and "\<not> creatable w (outdir_of cl) \<Longrightarrow>
           \<exists>e. main csv cl w = (Inl e, w\<lparr>trace := trace w @ [Makedirs (outdir_of cl)]\<rparr>)"
proof -
  show "main csv cl w =
             (Inl (if p \<in> dirs w \<union> set (parents (outdir_of cl)) \<union> {outdir_of cl}
                   then IsADirectoryError p else FileNotFoundError p),
              w\<lparr>trace := trace w @ [Makedirs (outdir_of cl), OpenRead p],
                dirs := dirs w \<union> set (parents (outdir_of cl)) \<union> {outdir_of cl}\<rparr>)"
    if "creatable w (outdir_of cl)"
    using assms that
    by (simp add: main_def parse_args_Some io_bind_def makedirs_ok read_csv_missing)
  show "\<exists>e. main csv cl w = (Inl e, w\<lparr>trace := trace w @ [Makedirs (outdir_of cl)]\<rparr>)"
    if "\<not> creatable w (outdir_of cl)"
    using assms makedirs_fail [OF that]
    by (auto simp: main_def parse_args_Some io_bind_def)
qed

lemma path_join_longer:
  assumes "n \<noteq> []" and "hd n \<noteq> CHR ''/''"
  shows "length d < length (path_join d n)"
  using assms by (simp add: path_join_def)

lemma length_parents: "q \<in> set (parents d) \<Longrightarrow> length q < length d"
  by (auto simp: parents_def)

lemma path_join_fresh:
  assumes "n \<noteq> []" and "hd n \<noteq> CHR ''/''" and "path_join d n \<notin> dirs w"
  shows "path_join d n \<notin> dirs w \<union> set (parents d) \<union> {d}"
  using assms path_join_longer [OF assms(1,2), of d] length_parents [of "path_join d n" d]
  by auto

text \<open>The run without a bank table, when every step succeeds.\<close>

lemma main_no_bank:
  assumes "opt_pincsv cl = Some p" and "opt_bankcsv cl = None"
    and "creatable w (outdir_of cl)"
    and "files w p = Some body" and "csv body = Inr rows"
    and "path_join (outdir_of cl) ''pincodes.json'' \<notin> dirs w"
    and "path_join (outdir_of cl) ''index.json'' \<notin> dirs w"
  shows "main csv cl w =
     (Inr (),
      w\<lparr>trace := trace w @ [Makedirs (outdir_of cl), OpenRead p,
                              OpenWrite (path_join (outdir_of cl) ''pincodes.json''),
                              OpenWrite (path_join (outdir_of cl) ''index.json'')],
        dirs := dirs w \<union> set (parents (outdir_of cl)) \<union> {outdir_of cl},
        files := (files w)
          (path_join (outdir_of cl) ''pincodes.json''
             \<mapsto> json_dump (records_json (fst (pin_loop rows))),
           path_join (outdir_of cl) ''index.json''
             \<mapsto> json_dump (index_json (snd (pin_loop rows))))\<rparr>)"
proof -
  have a: "path_join (outdir_of cl) ''pincodes.json''
             \<notin> dirs w \<union> set (parents (outdir_of cl)) \<union> {outdir_of cl}"
    by (rule path_join_fresh) (simp_all add: assms)
  have b: "path_join (outdir_of cl) ''index.json''
             \<notin> dirs w \<union> set (parents (outdir_of cl)) \<union> {outdir_of cl}"
    by (rule path_join_fresh) (simp_all add: assms)
  show ?thesis
    using assms(1-5) a b
    by (simp add: main_def parse_args_Some io_bind_def io_return_def makedirs_ok
          read_csv_present dump_to_ok truthy_def Let_def)
qed

text \<open>The run without a bank table, whatever fails: what it reads and what it writes.\<close>

lemma main_no_bank_any:
  assumes "opt_pincsv cl = Some p" and "opt_bankcsv cl = None"
  shows "\<exists>ops. trace (snd (main csv cl w)) = trace w @ ops
           \<and> set (reads_of ops) \<subseteq> {p}
           \<and> set (writes_of ops) \<subseteq> {path_join (outdir_of cl) ''pincodes.json'',
                                       path_join (outdir_of cl) ''index.json''}
           \<and> (\<forall>q. q \<notin> set (writes_of ops) \<longrightarrow> files (snd (main csv cl w)) q = files w q)"
  using assms
  by (auto simp: main_def parse_args_Some io_bind_def io_return_def makedirs_def read_csv_def
        dump_to_def Let_def truthy_def split: option.splits sum.splits)

lemma bank_path_distinct:
  "path_join d ''bank_serviceability.json'' \<noteq> path_join d ''pincodes.json''"
  "path_join d ''bank_serviceability.json'' \<noteq> path_join d ''index.json''"
  by (simp_all add: path_join_def)

lemmas world_defs = main_def parse_args_def io_bind_def io_return_def makedirs_def read_csv_def
  dump_to_def path_join_def parents_def exit_status_def outdir_of_def creatable_def

section \<open>The text written by \<open>json.dump\<close> reads back\<close>

lemma hexval_hexdigit: "n < 16 \<Longrightarrow> hexval (hexdigit n) = Some n"
proof -
  assume "n < 16"
  then have "n \<in> {0, 1, 2, 3, 4, 5, 6, 7, 8, 9, 10, 11, 12, 13, 14, 15}"
    by simp arith
  then show ?thesis
    by (auto simp: hexval_def hexdigit_def)
qed

lemma decode_low:
  assumes "of_char c < (32 :: nat)"
  shows "decode_uXXXX CHR ''0'' CHR ''0'' (hexdigit (of_char c div 16)) (hexdigit (of_char c mod 16))
           = Inr c"
proof -
  have a: "hexval (hexdigit (of_char c div 16)) = Some (of_char c div 16)"
    using assms by (intro hexval_hexdigit) simp
  have b: "hexval (hexdigit (of_char c mod 16)) = Some (of_char c mod 16)"
    by (intro hexval_hexdigit) simp
  have z: "hexval CHR ''0'' = Some 0"
    by (simp add: hexval_def)
  show ?thesis
    using assms by (simp add: decode_uXXXX_def a b z)
qed

lemma scanstring_escape_char:
  "scanstring (escape_char c @ t) = push c (scanstring t)"
proof -
  consider "c = CHR 0x5C" | "c = CHR 0x22" | "c = CHR 0x08" | "c = CHR 0x0C" | "c = CHR 0x0A"
    | "c = CHR 0x0D" | "c = CHR 0x09"
    | "c \<notin> set [CHR 0x5C, CHR 0x22, CHR 0x08, CHR 0x0C, CHR 0x0A, CHR 0x0D, CHR 0x09]"
      "of_char c < (32 :: nat)"
    | "c \<notin> set [CHR 0x5C, CHR 0x22, CHR 0x08, CHR 0x0C, CHR 0x0A, CHR 0x0D, CHR 0x09]"
      "\<not> of_char c < (32 :: nat)"
    by auto
  then show ?thesis
  proof cases
    case 8
    then show ?thesis
      using decode_low [of c] by (simp add: escape_char_def)
  next
    case 9
    then show ?thesis
      by (simp add: escape_char_def)
  qed (simp_all add: escape_char_def backslash_def)
qed

lemma scanstring_escaped:
  "scanstring (concat (map escape_char s) @ CHR 0x22 # rest) = Inr (s, rest)"
  by (induction s) (simp_all add: scanstring_escape_char push_def)

lemma scan_once_string:
  "scan_once (Suc n) (encode_basestring s @ rest) = Inr (JStr s, rest)"
  by (simp add: encode_basestring_def scanstring_escaped)

lemma skip_ws_newline_indent: "skip_ws (newline_indent k @ s) = skip_ws s"
  by (simp add: skip_ws_def newline_indent_def is_ws_def dropWhile_append)

lemma skip_ws_nonws: "\<not> is_ws c \<Longrightarrow> skip_ws (c # s) = c # s"
  by (simp add: skip_ws_def)

lemma opener_not_ws: "opener c \<Longrightarrow> \<not> is_ws c"
  by (auto simp: opener_def is_ws_def)

lemma iterencode_opener: "\<exists>c t. iterencode lvl v = c # t \<and> opener c"
  by (cases v) (simp_all add: opener_def encode_basestring_def)

lemma skip_ws_iterencode: "skip_ws (iterencode lvl v @ s) = iterencode lvl v @ s"
  using iterencode_opener [of lvl v] by (auto simp: skip_ws_nonws opener_not_ws)

lemma join_with_Cons2:
  "join_with sep (x # y # ys) = x @ sep @ join_with sep (y # ys)"
  by simp

lemma update_fresh: "k \<notin> fst ` set d \<Longrightarrow> AList.update k v d = d @ [(k, v)]"
  by (induction d) auto

lemma foldl_update_distinct:
  "distinct (map fst (d @ kvs)) \<Longrightarrow>
   foldl (\<lambda>d kv. AList.update (fst kv) (snd kv) d) d kvs = d @ kvs"
proof (induction kvs arbitrary: d)
  case Nil
  show ?case by simp
next
  case (Cons kv kvs)
  from Cons.prems have fresh: "fst kv \<notin> fst ` set d"
    by auto
  from Cons.prems have "distinct (map fst ((d @ [kv]) @ kvs))"
    by simp
  from Cons.IH [OF this] fresh show ?case
    by (simp add: update_fresh)
qed

lemma dict_of_distinct: "distinct (map fst kvs) \<Longrightarrow> dict_of kvs = kvs"
  using foldl_update_distinct [of "[]" kvs] by (simp add: dict_of_def)

lemma reads_backD:
  "reads_back v \<Longrightarrow> length (iterencode lvl v) \<le> fuel \<Longrightarrow>
   scan_once fuel (iterencode lvl v @ rest) = Inr (v, rest)"
  by (simp add: reads_back_def)

lemma JSONArray_items:
  assumes "\<forall>x \<in> set (y # ys). reads_back x"
    and "length (join_with sep (map (iterencode (Suc lvl)) (y # ys))) < fuel"
    and "sep = '','' @ newline_indent (Suc lvl)"
  shows "JSONArray fuel vs
           (join_with sep (map (iterencode (Suc lvl)) (y # ys))
              @ newline_indent lvl @ CHR '']'' # rest)
         = Inr (JList (vs @ y # ys), rest)"
  using assms(1,2)
proof (induction ys arbitrary: y vs fuel)
  case Nil
  then obtain n where fuel: "fuel = Suc n" and n: "length (iterencode (Suc lvl) y) \<le> n"
    by (cases fuel) auto
  from Nil.prems(1) have "reads_back y" by simp
  from reads_backD [OF this n] show ?case
    by (simp add: fuel skip_ws_newline_indent skip_ws_nonws is_ws_def)
next
  case (Cons z zs)
  define J where "J = join_with sep (map (iterencode (Suc lvl)) (z # zs))"
  have split: "join_with sep (map (iterencode (Suc lvl)) (y # z # zs))
                 = iterencode (Suc lvl) y @ CHR '','' # newline_indent (Suc lvl) @ J"
    by (simp add: J_def assms(3))
  have len: "length (iterencode (Suc lvl) y) + (Suc 0 + length J) < fuel"
    using Cons.prems(2) unfolding split by simp
  then obtain n where fuel: "fuel = Suc n"
    by (cases fuel) auto
  from len have n: "length (iterencode (Suc lvl) y) \<le> n" and m: "length J < n"
    by (simp_all add: fuel)
  from Cons.prems(1) have y: "reads_back y" and zs: "\<forall>x \<in> set (z # zs). reads_back x"
    by simp_all
  obtain c t where ct: "J = c # t" "opener c"
    using iterencode_opener [of "Suc lvl" z] unfolding J_def by (cases zs) auto
  have sk: "skip_ws (newline_indent (Suc lvl) @ J @ z) = J @ z" for z
    by (simp add: skip_ws_newline_indent ct skip_ws_nonws opener_not_ws)
  have "JSONArray fuel vs
           (join_with sep (map (iterencode (Suc lvl)) (y # z # zs))
              @ newline_indent lvl @ CHR '']'' # rest)
        = JSONArray n (vs @ [y]) (J @ newline_indent lvl @ CHR '']'' # rest)"
    unfolding split fuel
    using reads_backD [OF y n, of "CHR '','' # newline_indent (Suc lvl) @ J
                                      @ newline_indent lvl @ CHR '']'' # rest"]
      sk [of "newline_indent lvl @ CHR '']'' # rest"]
    by (simp add: skip_ws_nonws is_ws_def)
  also have "\<dots> = Inr (JList ((vs @ [y]) @ z # zs), rest)"
    unfolding J_def using m unfolding J_def by (rule Cons.IH [OF zs])
  finally show ?case by simp
qed

lemma item_text_eq:
  "item_text lvl kv =
     CHR 0x22 # concat (map escape_char (fst kv))
       @ CHR 0x22 # CHR '':'' # CHR '' '' # iterencode lvl (snd kv)"
  by (simp add: item_text_def encode_basestring_def)

lemma skip_ws_space: "skip_ws (CHR '' '' # s) = skip_ws s"
  by (simp add: skip_ws_def is_ws_def)

lemma JSONObject_step:
  assumes "reads_back (snd p)" and "length (iterencode (Suc lvl) (snd p)) \<le> n"
  shows "JSONObject (Suc n) acc (tl (item_text (Suc lvl) p) @ CHR '','' # newline_indent (Suc lvl)
                                   @ CHR 0x22 # nxt)
           = JSONObject n (acc @ [p]) nxt"
    and "JSONObject (Suc n) acc (tl (item_text (Suc lvl) p) @ newline_indent lvl @ CHR ''}'' # rest)
           = Inr (JDict (dict_of (acc @ [p])), rest)"
proof -
  have key: "scanstring (concat (map escape_char (fst p))
               @ CHR 0x22 # CHR '':'' # CHR '' '' # iterencode (Suc lvl) (snd p) @ z)
             = Inr (fst p, CHR '':'' # CHR '' '' # iterencode (Suc lvl) (snd p) @ z)" for z
    using scanstring_escaped [of "fst p"] by simp
  have val: "scan_once n (skip_ws (CHR '' '' # iterencode (Suc lvl) (snd p) @ z))
             = Inr (snd p, z)" for z
    using reads_backD [OF assms] by (simp add: skip_ws_space skip_ws_iterencode)
  show "JSONObject (Suc n) acc (tl (item_text (Suc lvl) p) @ CHR '','' # newline_indent (Suc lvl)
                                   @ CHR 0x22 # nxt)
           = JSONObject n (acc @ [p]) nxt"
    using key [of "CHR '','' # newline_indent (Suc lvl) @ CHR 0x22 # nxt"]
      val [of "CHR '','' # newline_indent (Suc lvl) @ CHR 0x22 # nxt"]
    by (simp add: item_text_eq skip_ws_nonws is_ws_def skip_ws_newline_indent)
  show "JSONObject (Suc n) acc (tl (item_text (Suc lvl) p) @ newline_indent lvl @ CHR ''}'' # rest)
           = Inr (JDict (dict_of (acc @ [p])), rest)"
    using key [of "newline_indent lvl @ CHR ''}'' # rest"]
      val [of "newline_indent lvl @ CHR ''}'' # rest"]
    by (simp add: item_text_eq skip_ws_nonws is_ws_def skip_ws_newline_indent)
qed

lemma length_item_text: "length (iterencode lvl (snd kv)) < length (item_text lvl kv)"
  by (simp add: item_text_eq)

lemma join_items_quote:
  "\<exists>t. join_with sep (map (item_text lvl) (p # ps)) = CHR 0x22 # t"
  by (cases ps) (simp_all add: item_text_eq)

lemma JSONObject_items:
  assumes "\<forall>kv \<in> set (p # ps). reads_back (snd kv)"
    and "length (join_with sep (map (item_text (Suc lvl)) (p # ps))) < fuel"
    and "sep = '','' @ newline_indent (Suc lvl)"
  shows "JSONObject fuel acc
           (tl (join_with sep (map (item_text (Suc lvl)) (p # ps)))
              @ newline_indent lvl @ CHR ''}'' # rest)
         = Inr (JDict (dict_of (acc @ p # ps)), rest)"
  using assms(1,2)
proof (induction ps arbitrary: p acc fuel)
  case Nil
  then obtain n where fuel: "fuel = Suc n" and "length (item_text (Suc lvl) p) \<le> n"
    by (cases fuel) auto
  then have n: "length (iterencode (Suc lvl) (snd p)) \<le> n"
    using length_item_text [of "Suc lvl" p] by simp
  from Nil.prems(1) have "reads_back (snd p)" by simp
  from JSONObject_step(2) [OF this n] show ?case
    by (simp add: fuel)
next
  case (Cons q qs)
  define J where "J = join_with sep (map (item_text (Suc lvl)) (q # qs))"
  obtain t where t: "J = CHR 0x22 # t"
    using join_items_quote [of sep "Suc lvl" q qs] unfolding J_def by blast
  have split: "join_with sep (map (item_text (Suc lvl)) (p # q # qs))
                 = item_text (Suc lvl) p @ CHR '','' # newline_indent (Suc lvl) @ J"
    by (simp add: J_def assms(3))
  have tl_split: "tl (join_with sep (map (item_text (Suc lvl)) (p # q # qs)))
                 = tl (item_text (Suc lvl) p) @ CHR '','' # newline_indent (Suc lvl) @ J"
    unfolding split by (simp add: item_text_eq)
  have len: "length (item_text (Suc lvl) p) + (Suc 0 + length J) < fuel"
    using Cons.prems(2) unfolding split by simp
  then obtain n where fuel: "fuel = Suc n"
    by (cases fuel) auto
  from len have n: "length (iterencode (Suc lvl) (snd p)) \<le> n" and m: "length J < n"
    using length_item_text [of "Suc lvl" p] by (simp_all add: fuel)
  from Cons.prems(1) have p: "reads_back (snd p)"
    and qs: "\<forall>kv \<in> set (q # qs). reads_back (snd kv)"
    by simp_all
  have "JSONObject fuel acc
           (tl (join_with sep (map (item_text (Suc lvl)) (p # q # qs)))
              @ newline_indent lvl @ CHR ''}'' # rest)
        = JSONObject n (acc @ [p]) (tl J @ newline_indent lvl @ CHR ''}'' # rest)"
    unfolding tl_split fuel
    using JSONObject_step(1) [OF p n, of acc "t @ newline_indent lvl @ CHR ''}'' # rest"]
    by (simp add: t)
  also have "\<dots> = Inr (JDict (dict_of ((acc @ [p]) @ q # qs)), rest)"
    unfolding J_def using m unfolding J_def by (rule Cons.IH [OF qs])
  finally show ?case by simp
qed

lemma item_lambda:
  "(\<lambda>kv. encode_basestring (fst kv) @ CHR '':'' # CHR '' '' # iterencode lvl (snd kv))
     = item_text lvl"
  by (simp add: item_text_def fun_eq_iff)

lemma reads_back_JStr: "reads_back (JStr s)"
proof -
  have "scan_once fuel (iterencode lvl (JStr s) @ rest) = Inr (JStr s, rest)"
    if "length (iterencode lvl (JStr s)) \<le> fuel" for lvl fuel rest
  proof -
    from that obtain n where "fuel = Suc n"
      by (cases fuel) (auto simp: encode_basestring_def)
    then show ?thesis
      by (simp add: scan_once_string)
  qed
  then show ?thesis
    by (simp add: reads_back_def)
qed

lemma reads_back_JList:
  assumes "\<forall>x \<in> set xs. reads_back x"
  shows "reads_back (JList xs)"
proof -
  have "scan_once fuel (iterencode lvl (JList xs) @ rest) = Inr (JList xs, rest)"
    if le: "length (iterencode lvl (JList xs)) \<le> fuel" for lvl fuel rest
  proof (cases xs)
    case Nil
    with le obtain n where "fuel = Suc n"
      by (cases fuel) auto
    with Nil show ?thesis
      by (simp add: skip_ws_nonws is_ws_def)
  next
    case (Cons y ys)
    define J where "J = join_with ('','' @ newline_indent (Suc lvl))
                          (map (iterencode (Suc lvl)) (y # ys))"
    have enc: "iterencode lvl (JList xs)
                 = CHR ''['' # newline_indent (Suc lvl) @ J @ newline_indent lvl @ '']''"
      by (simp add: Cons J_def)
    obtain c t where ct: "J = c # t" "opener c"
      using iterencode_opener [of "Suc lvl" y] unfolding J_def by (cases ys) auto
    from le obtain n where fuel: "fuel = Suc n" and n: "length J < n"
      unfolding enc by (cases fuel) (auto simp: newline_indent_def)
    have all: "\<forall>x \<in> set (y # ys). reads_back x"
      using assms Cons by simp
    have "JSONArray n [] (J @ newline_indent lvl @ CHR '']'' # rest) = Inr (JList ([] @ y # ys), rest)"
      unfolding J_def
      by (rule JSONArray_items [OF all _ refl]) (use n in \<open>simp add: J_def\<close>)
    then have arr: "JSONArray n [] (c # t @ newline_indent lvl @ CHR '']'' # rest) = Inr (JList xs, rest)"
      by (simp add: ct Cons)
    have "c \<noteq> CHR '']''"
      using ct(2) by (auto simp: opener_def)
    then show ?thesis
      unfolding enc fuel using arr ct(2)
      by (simp add: skip_ws_newline_indent ct(1) skip_ws_nonws opener_not_ws)
  qed
  then show ?thesis
    by (simp add: reads_back_def)
qed

lemma reads_back_JDict:
  assumes "\<forall>kv \<in> set kvs. reads_back (snd kv)" and "distinct (map fst kvs)"
  shows "reads_back (JDict kvs)"
proof -
  have "scan_once fuel (iterencode lvl (JDict kvs) @ rest) = Inr (JDict kvs, rest)"
    if le: "length (iterencode lvl (JDict kvs)) \<le> fuel" for lvl fuel rest
  proof (cases kvs)
    case Nil
    with le obtain n where "fuel = Suc n"
      by (cases fuel) auto
    with Nil show ?thesis
      by (simp add: skip_ws_nonws is_ws_def)
  next
    case (Cons p ps)
    define J where "J = join_with ('','' @ newline_indent (Suc lvl))
                          (map (item_text (Suc lvl)) (p # ps))"
    have enc: "iterencode lvl (JDict kvs)
                 = CHR ''{'' # newline_indent (Suc lvl) @ J @ newline_indent lvl @ ''}''"
      by (simp add: Cons J_def item_lambda item_text_def)
    obtain t where t: "J = CHR 0x22 # t"
      using join_items_quote [of _ "Suc lvl" p ps] unfolding J_def by blast
    from le obtain n where fuel: "fuel = Suc n" and n: "length J < n"
      unfolding enc by (cases fuel) (auto simp: newline_indent_def)
    have all: "\<forall>kv \<in> set (p # ps). reads_back (snd kv)"
      using assms(1) Cons by simp
    have "JSONObject n [] (tl J @ newline_indent lvl @ CHR ''}'' # rest)
            = Inr (JDict (dict_of ([] @ p # ps)), rest)"
      unfolding J_def
      by (rule JSONObject_items [OF all _ refl]) (use n in \<open>simp add: J_def\<close>)
    then have obj: "JSONObject n [] (t @ newline_indent lvl @ CHR ''}'' # rest) = Inr (JDict kvs, rest)"
      using dict_of_distinct [OF assms(2)] by (simp add: t Cons)
    show ?thesis
      unfolding enc fuel using obj
      by (simp add: skip_ws_newline_indent t skip_ws_nonws is_ws_def)
  qed
  then show ?thesis
    by (simp add: reads_back_def)
qed

lemma wf_json_reads_back: "wf_json v \<Longrightarrow> reads_back v"
proof (induction v)
  case (JStr s)
  show ?case by (rule reads_back_JStr)
next
  case (JList xs)
  then show ?case
    by (intro reads_back_JList) (auto simp: list_all_iff)
next
  case (JDict kvs)
  have "reads_back (snd kv)" if "kv \<in> set kvs" for kv
  proof -
    from that JDict.prems have "wf_json (snd kv)"
      by (auto simp: list_all_iff)
    moreover have "snd kv \<in> Basic_BNFs.snds kv"
      by (cases kv) simp
    ultimately show ?thesis
      using JDict.IH [OF that] by blast
  qed
  with JDict.prems show ?case
    by (intro reads_back_JDict) auto
qed

lemma json_round_trip:
  assumes "wf_json v"
  shows "json_loads (json_dump v) = Inr v"
proof -
  have s: "skip_ws (iterencode 0 v) = iterencode 0 v"
    using skip_ws_iterencode [of 0 v "[]"] by simp
  have e: "skip_ws [] = []"
    by (simp add: skip_ws_def)
  have "scan_once (Suc (2 * length (iterencode 0 v))) (iterencode 0 v) = Inr (v, [])"
    using reads_backD [OF wf_json_reads_back [OF assms], of 0
        "Suc (2 * length (iterencode 0 v))" "[]"]
    by simp
  then show ?thesis
    by (simp add: json_loads_def json_dump_def s e)
qed

lemma wf_records_json: "wf_json (records_json recs)"
  by (simp add: records_json_def record_json_def list_all_iff)

text \<open>The text of a one-record array, character by character.\<close>

lemma dump_example:
  "json_dump (records_json [\<lparr>pincode = ''1'', officeName = [CHR 0x22], district = [], state = ''S''\<rparr>])
     = ''['' @ [CHR 0x0A] @ ''  {'' @ [CHR 0x0A]
       @ ''    '' @ [CHR 0x22] @ ''pincode'' @ [CHR 0x22] @ '': '' @ [CHR 0x22] @ ''1'' @ [CHR 0x22] @ '','' @ [CHR 0x0A]
       @ ''    '' @ [CHR 0x22] @ ''officeName'' @ [CHR 0x22] @ '': '' @ [CHR 0x22, CHR 0x5C, CHR 0x22, CHR 0x22] @ '','' @ [CHR 0x0A]
       @ ''    '' @ [CHR 0x22] @ ''district'' @ [CHR 0x22] @ '': '' @ [CHR 0x22, CHR 0x22] @ '','' @ [CHR 0x0A]
       @ ''    '' @ [CHR 0x22] @ ''state'' @ [CHR 0x22] @ '': '' @ [CHR 0x22] @ ''S'' @ [CHR 0x22] @ [CHR 0x0A]
       @ ''  }'' @ [CHR 0x0A] @ '']''"
  by (simp add: json_dump_def records_json_def record_json_def encode_basestring_def
        escape_char_def newline_indent_def numeral_2_eq_2)

section \<open>The reader never runs out of fuel\<close>

lemma skip_ws_Cons_length: "skip_ws s = d # r \<Longrightarrow> length r < length s"
  using length_dropWhile_le [of is_ws s] by (simp add: skip_ws_def)

lemma length_skip_ws: "length (skip_ws s) \<le> length s"
  by (simp add: skip_ws_def length_dropWhile_le)

lemma scanstring_progress: "scanstring s = Inr (k, rest) \<Longrightarrow> length rest < length s"
proof (induction s arbitrary: k rest rule: scanstring.induct)
  case 1
  then show ?case by simp
next
  case (2 c cs)
  show ?case
    using "2.prems" "2.IH"
    by (auto simp: push_def split: if_splits list.splits sum.splits option.splits prod.splits)
       fastforce+
qed

lemma progress_scan_once:
  assumes "progress n" and "scan_once (Suc n) s = Inr (v, rest)"
  shows "length rest < length s"
proof (cases s)
  case Nil
  with assms(2) show ?thesis by simp
next
  case (Cons c cs)
  consider "c = CHR 0x22" | "c \<noteq> CHR 0x22" "c = CHR ''{''"
    | "c \<noteq> CHR 0x22" "c \<noteq> CHR ''{''" "c = CHR ''[''"
    | "c \<noteq> CHR 0x22" "c \<noteq> CHR ''{''" "c \<noteq> CHR ''[''"
    by blast
  then show ?thesis
  proof cases
    case 1
    with assms(2) Cons obtain k where "scanstring cs = Inr (k, rest)"
      by (auto split: sum.splits)
    from scanstring_progress [OF this] Cons show ?thesis by simp
  next
    case 2
    with assms(2) Cons obtain d r where d: "skip_ws cs = d # r"
      by (auto split: list.splits)
    from skip_ws_Cons_length [OF d] have r: "length r < length cs" .
    show ?thesis
    proof (cases "d = CHR ''}''")
      case True
      with assms(2) Cons 2 d r show ?thesis by simp
    next
      case False
      with assms(2) Cons 2 d have "JSONObject n [] r = Inr (v, rest)"
        by (auto split: if_splits)
      with assms(1) have "length rest < length r"
        unfolding progress_def by blast
      with r Cons show ?thesis by simp
    qed
  next
    case 3
    with assms(2) Cons obtain d r where d: "skip_ws cs = d # r"
      by (auto split: list.splits)
    from length_skip_ws [of cs] d have r: "length (d # r) \<le> length cs" by simp
    show ?thesis
    proof (cases "d = CHR '']''")
      case True
      with assms(2) Cons 3 d r show ?thesis by simp
    next
      case False
      with assms(2) Cons 3 d have "JSONArray n [] (d # r) = Inr (v, rest)"
        by simp
      with assms(1) have "length rest < length (d # r)"
        unfolding progress_def by blast
      with r Cons show ?thesis by simp
    qed
  next
    case 4
    with assms(2) Cons show ?thesis
      by (simp split: if_splits)
  qed
qed

lemma progress_JSONArray:
  assumes "progress n" and "JSONArray (Suc n) vs s = Inr (v, rest)"
  shows "length rest < length s"
proof -
  from assms(2) obtain x r1 where x: "scan_once n s = Inr (x, r1)"
    by (auto split: sum.splits)
  with assms(1) have r1: "length r1 < length s"
    unfolding progress_def by blast
  from assms(2) x obtain d r2 where d: "skip_ws r1 = d # r2"
    by (auto split: list.splits)
  from skip_ws_Cons_length [OF d] r1 have r2: "length r2 < length s" by simp
  show ?thesis
  proof (cases "d = CHR '']''")
    case True
    with assms(2) x d r2 show ?thesis by simp
  next
    case False
    with assms(2) x d have "JSONArray n (vs @ [x]) (skip_ws r2) = Inr (v, rest)"
      by (auto split: if_splits)
    with assms(1) have "length rest < length (skip_ws r2)"
      unfolding progress_def by blast
    with length_skip_ws [of r2] r2 show ?thesis by simp
  qed
qed

lemma progress_JSONObject:
  assumes "progress n" and "JSONObject (Suc n) ps s = Inr (v, rest)"
  shows "length rest < length s"
proof -
  from assms(2) obtain key r0 where k: "scanstring s = Inr (key, r0)"
    by (auto split: sum.splits)
  from scanstring_progress [OF k] have r0: "length r0 < length s" .
  from assms(2) k obtain d r1 where d: "skip_ws r0 = d # r1"
    by (auto split: list.splits)
  from assms(2) k d have colon: "d = CHR '':''"
    by (auto split: if_splits)
  from skip_ws_Cons_length [OF d] r0 have r1: "length r1 < length s" by simp
  from assms(2) k d colon obtain x r2 where x: "scan_once n (skip_ws r1) = Inr (x, r2)"
    by (auto split: sum.splits)
  with assms(1) have "length r2 < length (skip_ws r1)"
    unfolding progress_def by blast
  with length_skip_ws [of r1] r1 have r2: "length r2 < length s" by simp
  from assms(2) k d colon x obtain d' r3 where d': "skip_ws r2 = d' # r3"
    by (auto split: list.splits)
  from skip_ws_Cons_length [OF d'] r2 have r3: "length r3 < length s" by simp
  show ?thesis
  proof (cases "d' = CHR ''}''")
    case True
    with assms(2) k d colon x d' r3 show ?thesis by simp
  next
    case False
    with assms(2) k d colon x d' have c: "d' = CHR '',''"
      by (auto split: if_splits)
    with assms(2) k d colon x d' obtain q r4 where q: "skip_ws r3 = q # r4"
      by (auto split: list.splits)
    from skip_ws_Cons_length [OF q] r3 have r4: "length r4 < length s" by simp
    from assms(2) k d colon x d' c q have "JSONObject n (ps @ [(key, x)]) r4 = Inr (v, rest)"
      by (auto split: if_splits)
    with assms(1) have "length rest < length r4"
      unfolding progress_def by blast
    with r4 show ?thesis by simp
  qed
qed

lemma progress_all: "progress n"
proof (induction n)
  case 0
  show ?case by (simp add: progress_def)
next
  case (Suc n)
  show ?case
    unfolding progress_def
    using progress_scan_once [OF Suc] progress_JSONArray [OF Suc] progress_JSONObject [OF Suc]
    by blast
qed

lemma push_fuel: "r \<noteq> Inl OutOfFuel \<Longrightarrow> push ch r \<noteq> Inl OutOfFuel"
  by (cases r) (auto simp: push_def)

lemma decode_uXXXX_fuel: "decode_uXXXX a b c d \<noteq> Inl OutOfFuel"
  by (simp add: decode_uXXXX_def Let_def split: option.splits)

lemma scanstring_fuel: "scanstring s \<noteq> Inl OutOfFuel"
proof (induction s rule: length_induct)
  case (1 s)
  then have IH: "scanstring t \<noteq> Inl OutOfFuel" if "length t < length s" for t
    using that by blast
  show ?case
  proof (cases s)
    case Nil
    then show ?thesis by simp
  next
    case (Cons c cs)
    have plain: "push c (scanstring cs) \<noteq> Inl OutOfFuel"
      by (rule push_fuel) (simp add: IH Cons)
    show ?thesis
    proof (cases "c = CHR 0x5C")
      case False
      with plain show ?thesis
        by (simp add: Cons)
    next
      case True
      show ?thesis
      proof (cases cs)
        case Nil
        with True Cons show ?thesis by simp
      next
        case (Cons esc es)
        note cs = this
        show ?thesis
        proof (cases "esc = CHR ''u''")
          case False
          have "push ch (scanstring es) \<noteq> Inl OutOfFuel" for ch
            by (rule push_fuel) (simp add: IH \<open>s = c # cs\<close> cs)
          with True False show ?thesis
            by (simp add: \<open>s = c # cs\<close> cs split: option.splits)
        next
          case u: True
          show ?thesis
          proof (cases "\<exists>a b c' d rest. es = a # b # c' # d # rest")
            case True
            then obtain a b c' d rest where es: "es = a # b # c' # d # rest"
              by blast
            have "push ch (scanstring rest) \<noteq> Inl OutOfFuel" for ch
              by (rule push_fuel) (simp add: IH \<open>s = c # cs\<close> cs es)
            with \<open>c = CHR 0x5C\<close> u decode_uXXXX_fuel [of a b c' d] show ?thesis
              by (auto simp: \<open>s = c # cs\<close> cs es split: sum.splits)
          next
            case False
            then have "(case es of
                  a # b # c' # d # rest \<Rightarrow>
                    (case decode_uXXXX a b c' d of
                       Inl e \<Rightarrow> Inl e
                     | Inr ch \<Rightarrow> push ch (scanstring rest))
                | _ \<Rightarrow> Inl JSONDecodeError) = Inl JSONDecodeError"
              by (auto split: list.splits)
            with \<open>c = CHR 0x5C\<close> u show ?thesis
              by (simp add: \<open>s = c # cs\<close> cs)
          qed
        qed
      qed
    qed
  qed
qed

lemma enough_scan_once:
  assumes "enough n" and "2 * length s < Suc n"
  shows "scan_once (Suc n) s \<noteq> Inl OutOfFuel"
proof
  assume out: "scan_once (Suc n) s = Inl OutOfFuel"
  then obtain c cs where s: "s = c # cs"
    by (cases s) auto
  consider "c = CHR 0x22" | "c \<noteq> CHR 0x22" "c = CHR ''{''"
    | "c \<noteq> CHR 0x22" "c \<noteq> CHR ''{''" "c = CHR ''[''"
    | "c \<noteq> CHR 0x22" "c \<noteq> CHR ''{''" "c \<noteq> CHR ''[''"
    by blast
  then show False
  proof cases
    case 1
    with out s scanstring_fuel [of cs] show False
      by (auto split: sum.splits)
  next
    case 2
    with out s obtain d r where d: "skip_ws cs = d # r"
      by (auto split: list.splits)
    from skip_ws_Cons_length [OF d] assms(2) s have "2 * length r + 1 < n" by simp
    with assms(1) have "JSONObject n [] r \<noteq> Inl OutOfFuel"
      unfolding enough_def by blast
    with out s 2 d show False
      by (auto split: if_splits)
  next
    case 3
    with out s obtain d r where d: "skip_ws cs = d # r"
      by (auto split: list.splits)
    from length_skip_ws [of cs] d assms(2) s have "2 * length (d # r) + 1 < n" by simp
    with assms(1) have "JSONArray n [] (d # r) \<noteq> Inl OutOfFuel"
      unfolding enough_def by blast
    with out s 3 d show False
      by (auto split: if_splits)
  next
    case 4
    with out s show False
      by (simp split: if_splits)
  qed
qed

lemma enough_JSONArray:
  assumes "enough n" and "2 * length s + 1 < Suc n"
  shows "JSONArray (Suc n) vs s \<noteq> Inl OutOfFuel"
proof
  assume out: "JSONArray (Suc n) vs s = Inl OutOfFuel"
  from assms have "scan_once n s \<noteq> Inl OutOfFuel"
    unfolding enough_def by simp
  with out obtain x r1 where x: "scan_once n s = Inr (x, r1)"
    by (auto split: sum.splits)
  from progress_all [of n] x have r1: "length r1 < length s"
    unfolding progress_def by blast
  from out x obtain d r2 where d: "skip_ws r1 = d # r2"
    by (auto split: list.splits)
  from skip_ws_Cons_length [OF d] r1 length_skip_ws [of r2] assms(2)
  have "2 * length (skip_ws r2) + 1 < n" by simp
  with assms(1) have "JSONArray n (vs @ [x]) (skip_ws r2) \<noteq> Inl OutOfFuel"
    unfolding enough_def by blast
  with out x d show False
    by (auto split: if_splits)
qed

lemma enough_JSONObject:
  assumes "enough n" and "2 * length s + 1 < Suc n"
  shows "JSONObject (Suc n) ps s \<noteq> Inl OutOfFuel"
proof
  assume out: "JSONObject (Suc n) ps s = Inl OutOfFuel"
  with scanstring_fuel [of s] obtain key r0 where k: "scanstring s = Inr (key, r0)"
    by (auto split: sum.splits)
  from scanstring_progress [OF k] have r0: "length r0 < length s" .
  from out k obtain d r1 where d: "skip_ws r0 = d # r1"
    by (auto split: list.splits)
  from out k d have colon: "d = CHR '':''"
    by (auto split: if_splits)
  from skip_ws_Cons_length [OF d] r0 have r1: "length r1 < length s" by simp
  with length_skip_ws [of r1] assms(2) have "2 * length (skip_ws r1) < n" by simp
  with assms(1) have "scan_once n (skip_ws r1) \<noteq> Inl OutOfFuel"
    unfolding enough_def by blast
  with out k d colon obtain x r2 where x: "scan_once n (skip_ws r1) = Inr (x, r2)"
    by (auto split: sum.splits)
  from progress_all [of n] x have "length r2 < length (skip_ws r1)"
    unfolding progress_def by blast
  with length_skip_ws [of r1] r1 have r2: "length r2 < length s" by simp
  from out k d colon x obtain d' r3 where d': "skip_ws r2 = d' # r3"
    by (auto split: list.splits)
  from skip_ws_Cons_length [OF d'] r2 have r3: "length r3 < length s" by simp
  from out k d colon x d' have c: "d' \<noteq> CHR ''}''" "d' = CHR '',''"
    by (auto split: if_splits)
  with out k d colon x d' obtain q r4 where q: "skip_ws r3 = q # r4"
    by (auto split: list.splits)
  from skip_ws_Cons_length [OF q] r3 assms(2) have "2 * length r4 + 1 < n" by simp
  with assms(1) have "JSONObject n (ps @ [(key, x)]) r4 \<noteq> Inl OutOfFuel"
    unfolding enough_def by blast
  with out k d colon x d' c q show False
    by (auto split: if_splits)
qed

lemma enough_all: "enough n"
proof (induction n)
  case 0
  show ?case by (simp add: enough_def)
next
  case (Suc n)
  show ?case
    unfolding enough_def
    using enough_scan_once [OF Suc] enough_JSONArray [OF Suc] enough_JSONObject [OF Suc]
    by blast
qed

lemma json_loads_fuel: "json_loads s \<noteq> Inl OutOfFuel"
proof -
  have "2 * length (skip_ws s) < Suc (2 * length s)"
    using length_skip_ws [of s] by simp
  with enough_all [of "Suc (2 * length s)"]
  have "scan_once (Suc (2 * length s)) (skip_ws s) \<noteq> Inl OutOfFuel"
    unfolding enough_def by blast
  then show ?thesis
    by (auto simp: json_loads_def split: sum.splits)
qed

section \<open>What the output files hold\<close>

lemma main_phases:
  assumes "opt_pincsv cl = Some p" and "creatable w (outdir_of cl)"
    and "files w p = Some body" and "csv body = Inr rows"
    and "path_join (outdir_of cl) ''pincodes.json'' \<notin> dirs w"
    and "path_join (outdir_of cl) ''index.json'' \<notin> dirs w"
  shows "main csv cl w = bank_phase csv cl (pincode_phase cl p rows w)"
proof -
  have a: "path_join (outdir_of cl) ''pincodes.json''
             \<notin> dirs w \<union> set (parents (outdir_of cl)) \<union> {outdir_of cl}"
    by (rule path_join_fresh) (simp_all add: assms)
  have b: "path_join (outdir_of cl) ''index.json''
             \<notin> dirs w \<union> set (parents (outdir_of cl)) \<union> {outdir_of cl}"
    by (rule path_join_fresh) (simp_all add: assms)
  show ?thesis
    using assms(1-4) a b
    by (simp add: main_def parse_args_Some io_bind_def makedirs_ok read_csv_present dump_to_ok
          truthy_def str_def Let_def bank_phase_def pincode_phase_def split: option.splits)
qed

lemma bank_phase_files:
  "q \<noteq> path_join (outdir_of cl) ''bank_serviceability.json'' \<Longrightarrow>
   files (snd (bank_phase csv cl w)) q = files w q"
  by (auto simp: bank_phase_def io_return_def io_bind_def read_csv_def dump_to_def Let_def
           split: option.splits sum.splits)

lemma main_pincode_files:
  assumes "opt_pincsv cl = Some p" and "creatable w (outdir_of cl)"
    and "files w p = Some body" and "csv body = Inr rows"
    and "path_join (outdir_of cl) ''pincodes.json'' \<notin> dirs w"
    and "path_join (outdir_of cl) ''index.json'' \<notin> dirs w"
  shows "files (snd (main csv cl w)) (path_join (outdir_of cl) ''pincodes.json'')
           = Some (json_dump (records_json (fst (pin_loop rows))))"
    and "files (snd (main csv cl w)) (path_join (outdir_of cl) ''index.json'')
           = Some (json_dump (index_json (snd (pin_loop rows))))"
  unfolding main_phases [of cl p w body csv rows, OF assms]
  using bank_path_distinct [of "outdir_of cl"]
  by (simp_all add: bank_phase_files [OF not_sym] pincode_phase_def path_join_def)

lemma map_of_map_snd:
  "map_of (map (\<lambda>kv. (fst kv, f (snd kv))) xs) k = map_option f (map_of xs k)"
  by (induction xs) auto

lemma object_get_index_json:
  "object_get (index_json idx) k = map_option record_json (map_of idx k)"
  by (simp add: object_get_def index_json_def map_of_map_snd)

lemma object_get_bank_map_json:
  "object_get (bank_map_json m) k = map_option (\<lambda>es. JList (map entry_json es)) (map_of m k)"
  using map_of_map_snd [of "\<lambda>es. JList (map entry_json es)" m k]
  by (simp add: object_get_def bank_map_json_def)

lemma wf_record_json: "wf_json (record_json r)"
  by (simp add: record_json_def)

lemma wf_index_json: "distinct (map fst idx) \<Longrightarrow> wf_json (index_json idx)"
  by (simp add: index_json_def comp_def list_all_iff wf_record_json)

lemma wf_bank_map_json: "distinct (map fst m) \<Longrightarrow> wf_json (bank_map_json m)"
  by (simp add: bank_map_json_def comp_def list_all_iff entry_json_def)

lemma distinct_pin_loop: "distinct (map fst (snd (pin_loop rows)))"
  by (simp add: pin_loop_eq distinct_index_of)

lemma distinct_bank_loop: "distinct (map fst (bank_loop rows))"
  by (simp add: bank_loop_def distinct_foldl_bank_step)

lemma main_with_bank:
  assumes "opt_pincsv cl = Some p" and "creatable w (outdir_of cl)"
    and "files w p = Some body" and "csv body = Inr rows"
    and "path_join (outdir_of cl) ''pincodes.json'' \<notin> dirs w"
    and "path_join (outdir_of cl) ''index.json'' \<notin> dirs w"
    and "opt_bankcsv cl = Some b" and "b \<noteq> []"
    and "b \<noteq> path_join (outdir_of cl) ''pincodes.json''"
    and "b \<noteq> path_join (outdir_of cl) ''index.json''"
    and "files w b = Some bank_body" and "csv bank_body = Inr bank_rows"
    and "path_join (outdir_of cl) ''bank_serviceability.json'' \<notin> dirs w"
  shows "main csv cl w =
     (Inr (),
      w\<lparr>dirs := dirs w \<union> set (parents (outdir_of cl)) \<union> {outdir_of cl},
        trace := trace w @ [Makedirs (outdir_of cl), OpenRead p,
                           OpenWrite (path_join (outdir_of cl) ''pincodes.json''),
                           OpenWrite (path_join (outdir_of cl) ''index.json''),
                           OpenRead b,
                           OpenWrite (path_join (outdir_of cl) ''bank_serviceability.json'')],
        files := (files w)
          (path_join (outdir_of cl) ''pincodes.json''
             \<mapsto> json_dump (records_json (fst (pin_loop rows))),
           path_join (outdir_of cl) ''index.json''
             \<mapsto> json_dump (index_json (snd (pin_loop rows))),
           path_join (outdir_of cl) ''bank_serviceability.json''
             \<mapsto> json_dump (bank_map_json (bank_loop bank_rows)))\<rparr>)"
proof -
  have c: "path_join (outdir_of cl) ''bank_serviceability.json''
             \<notin> dirs w \<union> set (parents (outdir_of cl)) \<union> {outdir_of cl}"
    by (rule path_join_fresh) (simp_all add: assms)
  show ?thesis
    unfolding main_phases [of cl p w body csv rows, OF assms(1-6)]
    using assms(7-12) c
    by (simp add: bank_phase_def pincode_phase_def io_bind_def read_csv_def dump_to_def Let_def)
qed

lemma record_json_object: "record_json = record_object"
  by (simp add: fun_eq_iff record_json_def record_object_def)

lemma entry_json_object: "entry_json = entry_object"
  by (simp add: fun_eq_iff entry_json_def entry_object_def)

lemma pincode_files_content:
  "array_items (records_json (fst (pin_loop rows))) =
     map (\<lambda>r. record_object (normalize_record r))
       (filter (\<lambda>r. pincode (normalize_record r) \<noteq> []) rows)"
  "json_loads (json_dump (records_json (fst (pin_loop rows))))
     = Inr (records_json (fst (pin_loop rows)))"
  "json_loads (json_dump (index_json (snd (pin_loop rows))))
     = Inr (index_json (snd (pin_loop rows)))"
  "k \<noteq> [] \<Longrightarrow> object_get (index_json (snd (pin_loop rows))) k =
     (let same = filter (\<lambda>r. pincode (normalize_record r) = k) rows
      in if same = [] then None else Some (record_object (normalize_record (last same))))"
proof -
  show "array_items (records_json (fst (pin_loop rows))) =
     map (\<lambda>r. record_object (normalize_record r))
       (filter (\<lambda>r. pincode (normalize_record r) \<noteq> []) rows)"
    by (simp add: pin_loop_eq kept_filter_map array_items_def records_json_def
          record_json_object comp_def)
  show "json_loads (json_dump (records_json (fst (pin_loop rows))))
     = Inr (records_json (fst (pin_loop rows)))"
    by (rule json_round_trip [OF wf_records_json])
  show "json_loads (json_dump (index_json (snd (pin_loop rows))))
     = Inr (index_json (snd (pin_loop rows)))"
    by (rule json_round_trip [OF wf_index_json [OF distinct_pin_loop]])
  show "object_get (index_json (snd (pin_loop rows))) k =
     (let same = filter (\<lambda>r. pincode (normalize_record r) = k) rows
      in if same = [] then None else Some (record_object (normalize_record (last same))))"
    if "k \<noteq> []"
    using that
    by (simp add: object_get_index_json pin_loop_eq map_of_index_of kept_same Let_def last_map
          record_json_object)
qed

lemma bank_file_content:
  "json_loads (json_dump (bank_map_json (bank_loop rows))) = Inr (bank_map_json (bank_loop rows))"
  "object_get (bank_map_json (bank_loop rows)) k =
     (let es = map bank_entry_of (filter (\<lambda>r. bank_pincode r = k) rows)
      in if k = [] \<or> es = [] then None else Some (JList (map entry_object es)))"
proof -
  show "json_loads (json_dump (bank_map_json (bank_loop rows)))
          = Inr (bank_map_json (bank_loop rows))"
    by (rule json_round_trip [OF wf_bank_map_json [OF distinct_bank_loop]])
  show "object_get (bank_map_json (bank_loop rows)) k =
     (let es = map bank_entry_of (filter (\<lambda>r. bank_pincode r = k) rows)
      in if k = [] \<or> es = [] then None else Some (JList (map entry_object es)))"
    by (simp add: object_get_bank_map_json bank_loop_def map_of_foldl_bank_step seq_of_def
          Let_def entry_json_object)
qed

lemmas json_defs = records_json_def index_json_def record_json_def bank_map_json_def
  entry_json_def record_object_def entry_object_def object_get_def array_items_def

section \<open>The claims\<close>

text \<open>
  C1. A row whose pincode columns are missing or hold only empty values should be dropped.
  The code keeps it when the last lookup, of the column \<open>PinCode\<close>, finds nothing: the chain of
  \<open>or\<close> then yields \<open>None\<close>, and \<open>str(None).strip()\<close> is the text \<open>None\<close>. On the table with the
  header \<open>pincode,officeName,district,state\<close> and the line \<open>,X,D,S\<close> no pincode column has
  a non-empty value, and the row is kept under the pincode \<open>None\<close>, in the array and in the
  index.
\<close>

theorem empty_pincode_row_kept:
  "first_nonempty [''pincode'' \<mapsto> PStr [], ''officeName'' \<mapsto> PStr ''X'',
                   ''district'' \<mapsto> PStr ''D'', ''state'' \<mapsto> PStr ''S''] pincode_keys = None
   \<and> pin_loop [[''pincode'' \<mapsto> PStr [], ''officeName'' \<mapsto> PStr ''X'',
                 ''district'' \<mapsto> PStr ''D'', ''state'' \<mapsto> PStr ''S'']]
       = ([\<lparr>pincode = ''None'', officeName = ''X'', district = ''D'', state = ''S''\<rparr>],
          [(''None'', \<lparr>pincode = ''None'', officeName = ''X'', district = ''D'', state = ''S''\<rparr>)])"
  by (simp add: eval_defs)

text \<open>
  C2, as stated: every row with a non-empty normalized pincode has its record under its
  pincode in the index. It fails when a later row has the same pincode: of two rows with
  the pincode 110001, the index holds the second, not the first.
\<close>

theorem earlier_duplicate_not_in_index:
  "pincode (normalize_record [''pincode'' \<mapsto> PStr ''110001'', ''district'' \<mapsto> PStr ''A'']) \<noteq> []
   \<and> map_of (snd (pin_loop [[''pincode'' \<mapsto> PStr ''110001'', ''district'' \<mapsto> PStr ''A''],
                             [''pincode'' \<mapsto> PStr ''110001'', ''district'' \<mapsto> PStr ''B'']]))
        (pincode (normalize_record [''pincode'' \<mapsto> PStr ''110001'', ''district'' \<mapsto> PStr ''A'']))
       \<noteq> Some (normalize_record [''pincode'' \<mapsto> PStr ''110001'', ''district'' \<mapsto> PStr ''A''])"
  by (simp add: eval_defs)

text \<open>
  C2, amended. Take a run in which the output directory can be created, the postal-code
  table is read and neither output path is a directory, and a row of the table whose first
  non-empty pincode cell \<open>c\<close> is not all whitespace (so its normalized pincode is non-empty
  and is the trimmed \<open>c\<close>). Then each field of the row's record is the trimmed first
  non-empty value among the field's column names (the empty string when there is none, for
  the office name, the district and the state). \<open>pincodes.json\<close> holds the text of the
  array of the objects of the kept rows in input order, which reads back as that array, and
  the row's object is one of its elements. \<open>index.json\<close> holds the text of an object, which
  reads back as that object, and which maps the row's pincode to the object of the last
  row with that pincode: the row's own object when no later row has the same pincode.
\<close>

theorem kept_row_record:
  assumes "opt_pincsv cl = Some p" and "creatable w (outdir_of cl)"
    and "files w p = Some body" and "csv body = Inr rows"
    and "path_join (outdir_of cl) ''pincodes.json'' \<notin> dirs w"
    and "path_join (outdir_of cl) ''index.json'' \<notin> dirs w"
    and "i < length rows"
    and "first_nonempty (rows ! i) pincode_keys = Some c"
    and "strip c \<noteq> []"
  shows "normalize_record (rows ! i) =
           \<lparr>pincode = strip c,
            officeName = strip (field_or_empty (rows ! i) office_keys),
            district = strip (field_or_empty (rows ! i) district_keys),
            state = strip (field_or_empty (rows ! i) state_keys)\<rparr>
         \<and> files (snd (main csv cl w)) (path_join (outdir_of cl) ''pincodes.json'')
             = Some (json_dump (records_json (fst (pin_loop rows))))
         \<and> json_loads (json_dump (records_json (fst (pin_loop rows))))
             = Inr (records_json (fst (pin_loop rows)))
         \<and> array_items (records_json (fst (pin_loop rows))) =
             map (\<lambda>r. record_object (normalize_record r))
               (filter (\<lambda>r. pincode (normalize_record r) \<noteq> []) rows)
         \<and> record_object (normalize_record (rows ! i))
             \<in> set (array_items (records_json (fst (pin_loop rows))))
         \<and> files (snd (main csv cl w)) (path_join (outdir_of cl) ''index.json'')
             = Some (json_dump (index_json (snd (pin_loop rows))))
         \<and> json_loads (json_dump (index_json (snd (pin_loop rows))))
             = Inr (index_json (snd (pin_loop rows)))
         \<and> object_get (index_json (snd (pin_loop rows))) (strip c) =
             Some (record_object (normalize_record
                     (last (filter (\<lambda>r. pincode (normalize_record r) = strip c) rows))))
         \<and> ((\<forall>j. i < j \<and> j < length rows \<longrightarrow>
                   pincode (normalize_record (rows ! j)) \<noteq> strip c) \<longrightarrow>
              object_get (index_json (snd (pin_loop rows))) (strip c)
                = Some (record_object (normalize_record (rows ! i))))
         \<and> normalize_record (rows ! i) \<in> set (fst (pin_loop rows))
         \<and> fst (pin_loop rows) =
             map normalize_record (filter (\<lambda>r. pincode (normalize_record r) \<noteq> []) rows)
         \<and> map_of (snd (pin_loop rows)) (strip c) =
             Some (normalize_record
                     (last (filter (\<lambda>r. pincode (normalize_record r) = strip c) rows)))
         \<and> ((\<forall>j. i < j \<and> j < length rows \<longrightarrow>
                   pincode (normalize_record (rows ! j)) \<noteq> strip c) \<longrightarrow>
              map_of (snd (pin_loop rows)) (strip c) = Some (normalize_record (rows ! i)))"
proof -
  let ?r = "rows ! i"
  let ?same = "filter (\<lambda>r. pincode (normalize_record r) = strip c) rows"
  have p: "pincode (normalize_record ?r) = strip c"
    using assms(8) by (simp add: normalize_record_pincode)
  have rec: "normalize_record ?r =
           \<lparr>pincode = strip c,
            officeName = strip (field_or_empty ?r office_keys),
            district = strip (field_or_empty ?r district_keys),
            state = strip (field_or_empty ?r state_keys)\<rparr>"
    using p by (simp add: normalize_record_fields)
  have mem: "?r \<in> set rows"
    using assms(7) by simp
  have inr: "normalize_record ?r \<in> set (fst (pin_loop rows))"
    using mem p assms(9) by (simp add: pin_loop_eq kept_def)
  have arr: "fst (pin_loop rows) =
             map normalize_record (filter (\<lambda>r. pincode (normalize_record r) \<noteq> []) rows)"
    by (simp add: pin_loop_eq kept_filter_map)
  have ne: "?same \<noteq> []"
    using mem p by (auto simp: filter_empty_conv)
  have idx: "map_of (snd (pin_loop rows)) (strip c) = Some (normalize_record (last ?same))"
    using ne assms(9) by (simp add: pin_loop_eq map_of_index_of kept_same last_map)
  have lastrow: "last ?same = ?r"
    if "\<forall>j. i < j \<and> j < length rows \<longrightarrow> pincode (normalize_record (rows ! j)) \<noteq> strip c"
    using last_filter_nth [of i rows "\<lambda>r. pincode (normalize_record r) = strip c"]
      assms(7) p that by simp
  have own: "map_of (snd (pin_loop rows)) (strip c) = Some (normalize_record ?r)"
    if "\<forall>j. i < j \<and> j < length rows \<longrightarrow> pincode (normalize_record (rows ! j)) \<noteq> strip c"
    using lastrow [OF that] idx by simp
  note fl = main_pincode_files [of cl p w body csv rows, OF assms(1-6)]
  note c1 = pincode_files_content(1) [of rows]
  note c2 = pincode_files_content(2) [of rows]
  note c3 = pincode_files_content(3) [of rows]
  have c4: "object_get (index_json (snd (pin_loop rows))) (strip c) =
             Some (record_object (normalize_record (last ?same)))"
    using pincode_files_content(4) [of "strip c" rows, OF assms(9)] ne by (simp add: Let_def)
  have own_obj: "object_get (index_json (snd (pin_loop rows))) (strip c)
                = Some (record_object (normalize_record ?r))"
    if "\<forall>j. i < j \<and> j < length rows \<longrightarrow> pincode (normalize_record (rows ! j)) \<noteq> strip c"
    using lastrow [OF that] c4 by simp
  have in_items: "record_object (normalize_record ?r)
             \<in> set (array_items (records_json (fst (pin_loop rows))))"
    unfolding c1 using mem p assms(9) by auto
  from rec fl(1) c2 c1 in_items fl(2) c3 c4 own_obj inr arr idx own show ?thesis
    by blast
qed

theorem kept_row_record_witness:
  "opt_pincsv \<lparr>opt_pincsv = Some ''in.csv'', opt_bankcsv = None, opt_outdir = None\<rparr> = Some ''in.csv''
   \<and> creatable \<lparr>dirs = {}, files = [''in.csv'' \<mapsto> ''p''], trace = []\<rparr> ''mock-api''
   \<and> (1::nat) < length [[''pincode'' \<mapsto> PStr ''110001'', ''district'' \<mapsto> PStr ''A''],
                      [''PINCODE'' \<mapsto> PStr '' 110001 '', ''Office'' \<mapsto> PStr ''GPO '',
                       ''state'' \<mapsto> PStr [], ''STATE'' \<mapsto> PStr ''Delhi'']]
   \<and> first_nonempty ([[''pincode'' \<mapsto> PStr ''110001'', ''district'' \<mapsto> PStr ''A''],
                      [''PINCODE'' \<mapsto> PStr '' 110001 '', ''Office'' \<mapsto> PStr ''GPO '',
                       ''state'' \<mapsto> PStr [], ''STATE'' \<mapsto> PStr ''Delhi'']] ! 1) pincode_keys
       = Some '' 110001 ''
   \<and> strip '' 110001 '' \<noteq> []
   \<and> normalize_record [''PINCODE'' \<mapsto> PStr '' 110001 '', ''Office'' \<mapsto> PStr ''GPO '',
                       ''state'' \<mapsto> PStr [], ''STATE'' \<mapsto> PStr ''Delhi'']
       = \<lparr>pincode = ''110001'', officeName = ''GPO'', district = [], state = ''Delhi''\<rparr>
   \<and> files (snd (main (\<lambda>_. Inr [[''pincode'' \<mapsto> PStr ''110001'', ''district'' \<mapsto> PStr ''A''],
                      [''PINCODE'' \<mapsto> PStr '' 110001 '', ''Office'' \<mapsto> PStr ''GPO '',
                       ''state'' \<mapsto> PStr [], ''STATE'' \<mapsto> PStr ''Delhi'']])
         \<lparr>opt_pincsv = Some ''in.csv'', opt_bankcsv = None, opt_outdir = None\<rparr>
         \<lparr>dirs = {}, files = [''in.csv'' \<mapsto> ''p''], trace = []\<rparr>))
       ''mock-api/pincodes.json''
       = Some (json_dump (JList
           [JDict [(''pincode'', JStr ''110001''), (''officeName'', JStr []),
                   (''district'', JStr ''A''), (''state'', JStr [])],
            JDict [(''pincode'', JStr ''110001''), (''officeName'', JStr ''GPO''),
                   (''district'', JStr []), (''state'', JStr ''Delhi'')]]))
   \<and> files (snd (main (\<lambda>_. Inr [[''pincode'' \<mapsto> PStr ''110001'', ''district'' \<mapsto> PStr ''A''],
                      [''PINCODE'' \<mapsto> PStr '' 110001 '', ''Office'' \<mapsto> PStr ''GPO '',
                       ''state'' \<mapsto> PStr [], ''STATE'' \<mapsto> PStr ''Delhi'']])
         \<lparr>opt_pincsv = Some ''in.csv'', opt_bankcsv = None, opt_outdir = None\<rparr>
         \<lparr>dirs = {}, files = [''in.csv'' \<mapsto> ''p''], trace = []\<rparr>))
       ''mock-api/index.json''
       = Some (json_dump (JDict [(''110001'',
            JDict [(''pincode'', JStr ''110001''), (''officeName'', JStr ''GPO''),
                   (''district'', JStr []), (''state'', JStr ''Delhi'')])]))"
  using kept_row_record [of
      "\<lparr>opt_pincsv = Some ''in.csv'', opt_bankcsv = None, opt_outdir = None\<rparr>"
      "''in.csv''"
      "\<lparr>dirs = {}, files = [''in.csv'' \<mapsto> ''p''], trace = []\<rparr>"
      "''p''"
      "\<lambda>_. Inr [[''pincode'' \<mapsto> PStr ''110001'', ''district'' \<mapsto> PStr ''A''],
                      [''PINCODE'' \<mapsto> PStr '' 110001 '', ''Office'' \<mapsto> PStr ''GPO '',
                       ''state'' \<mapsto> PStr [], ''STATE'' \<mapsto> PStr ''Delhi'']]"
      "[[''pincode'' \<mapsto> PStr ''110001'', ''district'' \<mapsto> PStr ''A''],
                      [''PINCODE'' \<mapsto> PStr '' 110001 '', ''Office'' \<mapsto> PStr ''GPO '',
                       ''state'' \<mapsto> PStr [], ''STATE'' \<mapsto> PStr ''Delhi'']]"
      1 "'' 110001 ''"]
  by (simp add: world_defs eval_defs json_defs upt_conv_Cons)

text \<open>
  C3. Take a run in which the output directory can be created, the postal-code table is read
  and neither output path is a directory, and a non-empty pincode \<open>k\<close>. Then \<open>index.json\<close>
  holds the text of an object, which reads back as that object, and which maps \<open>k\<close> to the
  object of the last row in input order whose normalized pincode is \<open>k\<close>, whole and
  unmerged (and has no key \<open>k\<close> when there is no such row). \<open>pincodes.json\<close> holds the text
  of the array of the objects of all kept rows in input order, which reads back as that
  array; the rows with the pincode \<open>k\<close> are all among them, in their input order.
\<close>

theorem index_last_row_wins:
  assumes "opt_pincsv cl = Some p" and "creatable w (outdir_of cl)"
    and "files w p = Some body" and "csv body = Inr rows"
    and "path_join (outdir_of cl) ''pincodes.json'' \<notin> dirs w"
    and "path_join (outdir_of cl) ''index.json'' \<notin> dirs w"
    and "k \<noteq> []"
  shows "files (snd (main csv cl w)) (path_join (outdir_of cl) ''index.json'')
           = Some (json_dump (index_json (snd (pin_loop rows))))
         \<and> json_loads (json_dump (index_json (snd (pin_loop rows))))
             = Inr (index_json (snd (pin_loop rows)))
         \<and> object_get (index_json (snd (pin_loop rows))) k =
             (let same = filter (\<lambda>r. pincode (normalize_record r) = k) rows
              in if same = [] then None
                 else Some (record_object (normalize_record (last same))))
         \<and> files (snd (main csv cl w)) (path_join (outdir_of cl) ''pincodes.json'')
             = Some (json_dump (records_json (fst (pin_loop rows))))
         \<and> json_loads (json_dump (records_json (fst (pin_loop rows))))
             = Inr (records_json (fst (pin_loop rows)))
         \<and> array_items (records_json (fst (pin_loop rows))) =
             map (\<lambda>r. record_object (normalize_record r))
               (filter (\<lambda>r. pincode (normalize_record r) \<noteq> []) rows)
         \<and> map_of (snd (pin_loop rows)) k =
             (let same = filter (\<lambda>r. pincode (normalize_record r) = k) rows
              in if same = [] then None else Some (normalize_record (last same)))
         \<and> filter (\<lambda>rec. pincode rec = k) (fst (pin_loop rows)) =
             map normalize_record (filter (\<lambda>r. pincode (normalize_record r) = k) rows)
         \<and> fst (pin_loop rows) =
             map normalize_record (filter (\<lambda>r. pincode (normalize_record r) \<noteq> []) rows)"
proof -
  have fold: "map_of (snd (pin_loop rows)) k =
             (let same = filter (\<lambda>r. pincode (normalize_record r) = k) rows
              in if same = [] then None else Some (normalize_record (last same)))"
    using assms(7)
    by (simp add: pin_loop_eq map_of_index_of kept_same Let_def last_map)
  have same: "filter (\<lambda>rec. pincode rec = k) (fst (pin_loop rows)) =
             map normalize_record (filter (\<lambda>r. pincode (normalize_record r) = k) rows)"
    using assms(7) by (simp add: pin_loop_eq kept_same)
  have arr: "fst (pin_loop rows) =
             map normalize_record (filter (\<lambda>r. pincode (normalize_record r) \<noteq> []) rows)"
    by (simp add: pin_loop_eq kept_filter_map)
  note fl = main_pincode_files [of cl p w body csv rows, OF assms(1-6)]
  note c1 = pincode_files_content(1) [of rows]
  note c2 = pincode_files_content(2) [of rows]
  note c3 = pincode_files_content(3) [of rows]
  note c4 = pincode_files_content(4) [of k rows, OF assms(7)]
  from fl(2) c3 c4 fl(1) c2 c1 fold same arr show ?thesis
    by blast
qed

theorem index_last_row_wins_witness:
  "opt_pincsv \<lparr>opt_pincsv = Some ''in.csv'', opt_bankcsv = None, opt_outdir = None\<rparr> = Some ''in.csv''
   \<and> creatable \<lparr>dirs = {}, files = [''in.csv'' \<mapsto> ''pincode,district''], trace = []\<rparr> ''mock-api''
   \<and> ''110001'' \<noteq> []
   \<and> files (snd (main (\<lambda>_. Inr [[''pincode'' \<mapsto> PStr ''110001'', ''district'' \<mapsto> PStr ''A''],
                                  [''pincode'' \<mapsto> PStr ''110001'', ''district'' \<mapsto> PStr ''B'']])
         \<lparr>opt_pincsv = Some ''in.csv'', opt_bankcsv = None, opt_outdir = None\<rparr>
         \<lparr>dirs = {}, files = [''in.csv'' \<mapsto> ''pincode,district''], trace = []\<rparr>))
       ''mock-api/index.json''
       = Some (json_dump (JDict [(''110001'',
            JDict [(''pincode'', JStr ''110001''), (''officeName'', JStr []),
                   (''district'', JStr ''B''), (''state'', JStr [])])]))
   \<and> object_get (JDict [(''110001'',
            JDict [(''pincode'', JStr ''110001''), (''officeName'', JStr []),
                   (''district'', JStr ''B''), (''state'', JStr [])])]) ''110001''
       = Some (JDict [(''pincode'', JStr ''110001''), (''officeName'', JStr []),
                      (''district'', JStr ''B''), (''state'', JStr [])])
   \<and> files (snd (main (\<lambda>_. Inr [[''pincode'' \<mapsto> PStr ''110001'', ''district'' \<mapsto> PStr ''A''],
                                  [''pincode'' \<mapsto> PStr ''110001'', ''district'' \<mapsto> PStr ''B'']])
         \<lparr>opt_pincsv = Some ''in.csv'', opt_bankcsv = None, opt_outdir = None\<rparr>
         \<lparr>dirs = {}, files = [''in.csv'' \<mapsto> ''pincode,district''], trace = []\<rparr>))
       ''mock-api/pincodes.json''
       = Some (json_dump (JList
           [JDict [(''pincode'', JStr ''110001''), (''officeName'', JStr []),
                   (''district'', JStr ''A''), (''state'', JStr [])],
            JDict [(''pincode'', JStr ''110001''), (''officeName'', JStr []),
                   (''district'', JStr ''B''), (''state'', JStr [])]]))"
  using index_last_row_wins [of
      "\<lparr>opt_pincsv = Some ''in.csv'', opt_bankcsv = None, opt_outdir = None\<rparr>"
      "''in.csv''"
      "\<lparr>dirs = {}, files = [''in.csv'' \<mapsto> ''pincode,district''], trace = []\<rparr>"
      "''pincode,district''"
      "\<lambda>_. Inr [[''pincode'' \<mapsto> PStr ''110001'', ''district'' \<mapsto> PStr ''A''],
                 [''pincode'' \<mapsto> PStr ''110001'', ''district'' \<mapsto> PStr ''B'']]"
      "[[''pincode'' \<mapsto> PStr ''110001'', ''district'' \<mapsto> PStr ''A''],
        [''pincode'' \<mapsto> PStr ''110001'', ''district'' \<mapsto> PStr ''B'']]"
      "''110001''"]
  by (simp add: world_defs eval_defs json_defs upt_conv_Cons)

text \<open>
  C4. A bank row is dropped when the trimmed first non-empty value among its pincode columns
  is empty. Otherwise its entry, the trimmed first non-empty values of the bank and status
  columns (the empty string when there is none), is appended to the sequence of its
  pincode, which starts empty for a key that is new. In a run with \<open>--bankcsv\<close> in which the
  postal-code part succeeds, the bank table is read and the bank path is not a directory,
  the run reads the bank table after writing the two postal-code files and then writes
  \<open>bank_serviceability.json\<close>. The file holds the text of an object, which reads back as
  that object, and which maps a key \<open>k\<close> to the array of the entries of all bank rows with
  the pincode \<open>k\<close>, in input order and with duplicates; it has no key that no row has, never
  the empty key, and no key twice.
\<close>

theorem bank_map_entries:
  assumes "opt_pincsv cl = Some p" and "creatable w (outdir_of cl)"
    and "files w p = Some body" and "csv body = Inr rows"
    and "path_join (outdir_of cl) ''pincodes.json'' \<notin> dirs w"
    and "path_join (outdir_of cl) ''index.json'' \<notin> dirs w"
    and "opt_bankcsv cl = Some b" and "b \<noteq> []"
    and "b \<noteq> path_join (outdir_of cl) ''pincodes.json''"
    and "b \<noteq> path_join (outdir_of cl) ''index.json''"
    and "files w b = Some bank_body" and "csv bank_body = Inr bank_rows"
    and "path_join (outdir_of cl) ''bank_serviceability.json'' \<notin> dirs w"
  shows "fst (main csv cl w) = Inr ()
         \<and> trace (snd (main csv cl w)) =
             trace w @ [Makedirs (outdir_of cl), OpenRead p,
                        OpenWrite (path_join (outdir_of cl) ''pincodes.json''),
                        OpenWrite (path_join (outdir_of cl) ''index.json''),
                        OpenRead b,
                        OpenWrite (path_join (outdir_of cl) ''bank_serviceability.json'')]
         \<and> files (snd (main csv cl w)) (path_join (outdir_of cl) ''bank_serviceability.json'')
             = Some (json_dump (bank_map_json (bank_loop bank_rows)))
         \<and> json_loads (json_dump (bank_map_json (bank_loop bank_rows)))
             = Inr (bank_map_json (bank_loop bank_rows))
         \<and> object_get (bank_map_json (bank_loop bank_rows)) k =
             (let es = map bank_entry_of (filter (\<lambda>r. bank_pincode r = k) bank_rows)
              in if k = [] \<or> es = [] then None else Some (JList (map entry_object es)))
         \<and> bank_step m r =
             (if bank_pincode r = [] then m
              else AList.update (bank_pincode r) (seq_of m (bank_pincode r) @ [bank_entry_of r]) m)
         \<and> map_of (bank_loop bank_rows) k =
             (let es = map bank_entry_of (filter (\<lambda>r. bank_pincode r = k) bank_rows)
              in if k = [] \<or> es = [] then None else Some es)
         \<and> distinct (map fst (bank_loop bank_rows))"
proof -
  have sd: "setdefault_append q e m = AList.update q (seq_of m q @ [e]) m" for q e
    by (simp add: setdefault_append_def seq_of_def split: option.splits)
  have step: "bank_step m r =
             (if bank_pincode r = [] then m
              else AList.update (bank_pincode r) (seq_of m (bank_pincode r) @ [bank_entry_of r]) m)"
    by (simp add: bank_step_eq sd)
  have fold: "map_of (bank_loop bank_rows) k =
             (let es = map bank_entry_of (filter (\<lambda>r. bank_pincode r = k) bank_rows)
              in if k = [] \<or> es = [] then None else Some es)"
    by (simp add: bank_loop_def map_of_foldl_bank_step seq_of_def Let_def)
  note run = main_with_bank [of cl p w body csv rows b bank_body bank_rows, OF assms]
  have res: "fst (main csv cl w) = Inr ()"
    and tr: "trace (snd (main csv cl w)) =
             trace w @ [Makedirs (outdir_of cl), OpenRead p,
                        OpenWrite (path_join (outdir_of cl) ''pincodes.json''),
                        OpenWrite (path_join (outdir_of cl) ''index.json''),
                        OpenRead b,
                        OpenWrite (path_join (outdir_of cl) ''bank_serviceability.json'')]"
    and fl: "files (snd (main csv cl w)) (path_join (outdir_of cl) ''bank_serviceability.json'')
             = Some (json_dump (bank_map_json (bank_loop bank_rows)))"
    unfolding run by simp_all
  note c1 = bank_file_content(1) [of bank_rows]
  note c2 = bank_file_content(2) [of bank_rows k]
  from res tr fl c1 c2 step fold distinct_bank_loop [of bank_rows] show ?thesis
    by blast
qed

theorem bank_map_entries_witness:
  "opt_pincsv \<lparr>opt_pincsv = Some ''in.csv'', opt_bankcsv = Some ''bank.csv'', opt_outdir = None\<rparr>
     = Some ''in.csv''
   \<and> opt_bankcsv \<lparr>opt_pincsv = Some ''in.csv'', opt_bankcsv = Some ''bank.csv'', opt_outdir = None\<rparr>
     = Some ''bank.csv''
   \<and> creatable \<lparr>dirs = {}, files = [''in.csv'' \<mapsto> ''p'', ''bank.csv'' \<mapsto> ''b''], trace = []\<rparr>
         ''mock-api''
   \<and> main (\<lambda>t. if t = ''p'' then Inr [[''pincode'' \<mapsto> PStr ''110001'']]
              else Inr [[''pincode'' \<mapsto> PStr ''110001'', ''bank'' \<mapsto> PStr ''X'',
                         ''status'' \<mapsto> PStr ''serviceable''],
                        [''bank'' \<mapsto> PStr ''Z'', ''status'' \<mapsto> PStr ''not''],
                        [''pincode'' \<mapsto> PStr ''110001'', ''bank'' \<mapsto> PStr ''Y'',
                         ''status'' \<mapsto> PStr ''partial''],
                        [''Pincode'' \<mapsto> PStr ''110001 '', ''BANK'' \<mapsto> PStr ''X'',
                         ''Status'' \<mapsto> PStr ''serviceable'']])
         \<lparr>opt_pincsv = Some ''in.csv'', opt_bankcsv = Some ''bank.csv'', opt_outdir = None\<rparr>
         \<lparr>dirs = {}, files = [''in.csv'' \<mapsto> ''p'', ''bank.csv'' \<mapsto> ''b''], trace = []\<rparr>
       = (Inr (),
          \<lparr>dirs = {''mock-api''},
           files = [''in.csv'' \<mapsto> ''p'', ''bank.csv'' \<mapsto> ''b'',
                    ''mock-api/pincodes.json'' \<mapsto>
                      json_dump (JList [JDict [(''pincode'', JStr ''110001''),
                        (''officeName'', JStr []), (''district'', JStr []), (''state'', JStr [])]]),
                    ''mock-api/index.json'' \<mapsto>
                      json_dump (JDict [(''110001'', JDict [(''pincode'', JStr ''110001''),
                        (''officeName'', JStr []), (''district'', JStr []), (''state'', JStr [])])]),
                    ''mock-api/bank_serviceability.json'' \<mapsto>
                      json_dump (JDict [(''110001'', JList
                        [JDict [(''bank'', JStr ''X''), (''status'', JStr ''serviceable'')],
                         JDict [(''bank'', JStr ''Y''), (''status'', JStr ''partial'')],
                         JDict [(''bank'', JStr ''X''), (''status'', JStr ''serviceable'')]])])],
           trace = [Makedirs ''mock-api'', OpenRead ''in.csv'',
                    OpenWrite ''mock-api/pincodes.json'', OpenWrite ''mock-api/index.json'',
                    OpenRead ''bank.csv'', OpenWrite ''mock-api/bank_serviceability.json'']\<rparr>)"
  using bank_map_entries [of
      "\<lparr>opt_pincsv = Some ''in.csv'', opt_bankcsv = Some ''bank.csv'', opt_outdir = None\<rparr>"
      "''in.csv''"
      "\<lparr>dirs = {}, files = [''in.csv'' \<mapsto> ''p'', ''bank.csv'' \<mapsto> ''b''], trace = []\<rparr>"
      "''p''"
      "\<lambda>t. if t = ''p'' then Inr [[''pincode'' \<mapsto> PStr ''110001'']]
              else Inr [[''pincode'' \<mapsto> PStr ''110001'', ''bank'' \<mapsto> PStr ''X'',
                         ''status'' \<mapsto> PStr ''serviceable''],
                        [''bank'' \<mapsto> PStr ''Z'', ''status'' \<mapsto> PStr ''not''],
                        [''pincode'' \<mapsto> PStr ''110001'', ''bank'' \<mapsto> PStr ''Y'',
                         ''status'' \<mapsto> PStr ''partial''],
                        [''Pincode'' \<mapsto> PStr ''110001 '', ''BANK'' \<mapsto> PStr ''X'',
                         ''Status'' \<mapsto> PStr ''serviceable'']]"
      "[[''pincode'' \<mapsto> PStr ''110001'']]"
      "''bank.csv''" "''b''"
      "[[''pincode'' \<mapsto> PStr ''110001'', ''bank'' \<mapsto> PStr ''X'',
         ''status'' \<mapsto> PStr ''serviceable''],
        [''bank'' \<mapsto> PStr ''Z'', ''status'' \<mapsto> PStr ''not''],
        [''pincode'' \<mapsto> PStr ''110001'', ''bank'' \<mapsto> PStr ''Y'',
         ''status'' \<mapsto> PStr ''partial''],
        [''Pincode'' \<mapsto> PStr ''110001 '', ''BANK'' \<mapsto> PStr ''X'',
         ''Status'' \<mapsto> PStr ''serviceable'']]"
      "''110001''" "[]" "Map.empty"]
  by (simp add: world_defs eval_defs json_defs upt_conv_Cons bank_loop_def bank_step_def
        setdefault_append_def bank_pincode_def bank_entry_of_def bank_keys_def status_keys_def
        seq_of_def)

text \<open>
  C5. When there is no file at the path given for \<open>--pincsv\<close>, the process ends with a
  non-zero exit status, the files are what they were before the run, and the run has
  opened no file for writing.
\<close>

theorem missing_table_no_output:
  assumes "opt_pincsv cl = Some p" and "files w p = None"
  shows "exit_status (fst (main csv cl w)) \<noteq> 0
         \<and> files (snd (main csv cl w)) = files w
         \<and> writes_of (trace (snd (main csv cl w))) = writes_of (trace w)"
proof (cases "creatable w (outdir_of cl)")
  case True
  show ?thesis
    unfolding main_missing_table(1) [OF assms True] by (simp add: exit_status_def)
next
  case False
  from main_missing_table(2) [OF assms False] obtain e where
    "main csv cl w = (Inl e, w\<lparr>trace := trace w @ [Makedirs (outdir_of cl)]\<rparr>)" ..
  then show ?thesis by (simp add: exit_status_Inl)
qed

theorem missing_table_no_output_witness:
  "opt_pincsv \<lparr>opt_pincsv = Some ''nope.csv'', opt_bankcsv = None, opt_outdir = Some ''out/api''\<rparr>
     = Some ''nope.csv''
   \<and> files \<lparr>dirs = {}, files = [''in.csv'' \<mapsto> ''pincode''], trace = []\<rparr> ''nope.csv'' = None
   \<and> exit_status (fst (main (\<lambda>_. Inr [])
         \<lparr>opt_pincsv = Some ''nope.csv'', opt_bankcsv = None, opt_outdir = Some ''out/api''\<rparr>
         \<lparr>dirs = {}, files = [''in.csv'' \<mapsto> ''pincode''], trace = []\<rparr>)) = 1
   \<and> files (snd (main (\<lambda>_. Inr [])
         \<lparr>opt_pincsv = Some ''nope.csv'', opt_bankcsv = None, opt_outdir = Some ''out/api''\<rparr>
         \<lparr>dirs = {}, files = [''in.csv'' \<mapsto> ''pincode''], trace = []\<rparr>))
       = [''in.csv'' \<mapsto> ''pincode'']"
  using missing_table_no_output [of
      "\<lparr>opt_pincsv = Some ''nope.csv'', opt_bankcsv = None, opt_outdir = Some ''out/api''\<rparr>"
      "''nope.csv''" "\<lparr>dirs = {}, files = [''in.csv'' \<mapsto> ''pincode''], trace = []\<rparr>"
      "\<lambda>_. Inr []"]
  by (simp add: world_defs)

text \<open>
  C6. When \<open>--pincsv\<close> is missing, the run ends with the usage error, exit status 2, and the
  world is untouched: no directory created, no file changed, no file-system operation
  attempted.
\<close>

theorem missing_argument_usage_error:
  assumes "opt_pincsv cl = None"
  shows "main csv cl w = (Inl UsageError, w) \<and> exit_status (fst (main csv cl w)) = 2"
  using assms by (simp add: main_def parse_args_def exit_status_def)

theorem missing_argument_usage_error_witness:
  "opt_pincsv \<lparr>opt_pincsv = None, opt_bankcsv = Some ''b.csv'', opt_outdir = None\<rparr> = None
   \<and> main (\<lambda>_. Inr [])
         \<lparr>opt_pincsv = None, opt_bankcsv = Some ''b.csv'', opt_outdir = None\<rparr>
         \<lparr>dirs = {}, files = [''b.csv'' \<mapsto> ''pincode''], trace = []\<rparr>
       = (Inl UsageError, \<lparr>dirs = {}, files = [''b.csv'' \<mapsto> ''pincode''], trace = []\<rparr>)"
  using missing_argument_usage_error [of
      "\<lparr>opt_pincsv = None, opt_bankcsv = Some ''b.csv'', opt_outdir = None\<rparr>"
      "\<lambda>_. Inr []" "\<lparr>dirs = {}, files = [''b.csv'' \<mapsto> ''pincode''], trace = []\<rparr>"]
  by simp

text \<open>
  C7. When \<open>--bankcsv\<close> is omitted, the run never writes \<open>bank_serviceability.json\<close> (the
  file at that path is what it was before) and opens no file for reading but the
  postal-code table. The omission raises no error: when the output directory can be
  created, the table is read and neither output path is a directory, the run returns with
  exit status 0, having performed exactly four operations, the last two being the writes
  of \<open>pincodes.json\<close> and \<open>index.json\<close>.
\<close>

theorem omitted_bankcsv_no_bank_output:
  assumes "opt_pincsv cl = Some p" and "opt_bankcsv cl = None"
  shows "files (snd (main csv cl w)) (path_join (outdir_of cl) ''bank_serviceability.json'')
           = files w (path_join (outdir_of cl) ''bank_serviceability.json'')
         \<and> path_join (outdir_of cl) ''bank_serviceability.json''
             \<notin> set (writes_of (drop (length (trace w)) (trace (snd (main csv cl w)))))
         \<and> set (reads_of (drop (length (trace w)) (trace (snd (main csv cl w))))) \<subseteq> {p}
         \<and> (creatable w (outdir_of cl) \<and> files w p = Some body \<and> csv body = Inr rows
              \<and> path_join (outdir_of cl) ''pincodes.json'' \<notin> dirs w
              \<and> path_join (outdir_of cl) ''index.json'' \<notin> dirs w \<longrightarrow>
            fst (main csv cl w) = Inr ()
            \<and> exit_status (fst (main csv cl w)) = 0
            \<and> trace (snd (main csv cl w)) =
                trace w @ [Makedirs (outdir_of cl), OpenRead p,
                           OpenWrite (path_join (outdir_of cl) ''pincodes.json''),
                           OpenWrite (path_join (outdir_of cl) ''index.json'')]
            \<and> files (snd (main csv cl w)) (path_join (outdir_of cl) ''pincodes.json'')
                = Some (json_dump (records_json (fst (pin_loop rows))))
            \<and> files (snd (main csv cl w)) (path_join (outdir_of cl) ''index.json'')
                = Some (json_dump (index_json (snd (pin_loop rows)))))"
proof -
  let ?bp = "path_join (outdir_of cl) ''bank_serviceability.json''"
  from main_no_bank_any [OF assms, of csv w] obtain ops where
    tr: "trace (snd (main csv cl w)) = trace w @ ops"
    and rd: "set (reads_of ops) \<subseteq> {p}"
    and wr: "set (writes_of ops) \<subseteq> {path_join (outdir_of cl) ''pincodes.json'',
                                       path_join (outdir_of cl) ''index.json''}"
    and fr: "\<forall>q. q \<notin> set (writes_of ops) \<longrightarrow> files (snd (main csv cl w)) q = files w q"
    by blast
  from wr have nb: "?bp \<notin> set (writes_of ops)"
    using bank_path_distinct [of "outdir_of cl"] by auto
  with fr have same: "files (snd (main csv cl w)) ?bp = files w ?bp"
    by simp
  have ok: "fst (main csv cl w) = Inr ()
            \<and> exit_status (fst (main csv cl w)) = 0
            \<and> trace (snd (main csv cl w)) =
                trace w @ [Makedirs (outdir_of cl), OpenRead p,
                           OpenWrite (path_join (outdir_of cl) ''pincodes.json''),
                           OpenWrite (path_join (outdir_of cl) ''index.json'')]
            \<and> files (snd (main csv cl w)) (path_join (outdir_of cl) ''pincodes.json'')
                = Some (json_dump (records_json (fst (pin_loop rows))))
            \<and> files (snd (main csv cl w)) (path_join (outdir_of cl) ''index.json'')
                = Some (json_dump (index_json (snd (pin_loop rows))))"
    if "creatable w (outdir_of cl)" and "files w p = Some body" and "csv body = Inr rows"
      and "path_join (outdir_of cl) ''pincodes.json'' \<notin> dirs w"
      and "path_join (outdir_of cl) ''index.json'' \<notin> dirs w"
    using main_no_bank [of cl p w body csv rows] assms that
    by (simp add: exit_status_def path_join_def)
  from same nb rd ok show ?thesis
    unfolding tr by (auto simp: exit_status_def)
qed

theorem omitted_bankcsv_no_bank_output_witness:
  "opt_pincsv \<lparr>opt_pincsv = Some ''in.csv'', opt_bankcsv = None, opt_outdir = None\<rparr> = Some ''in.csv''
   \<and> opt_bankcsv \<lparr>opt_pincsv = Some ''in.csv'', opt_bankcsv = None, opt_outdir = None\<rparr> = None
   \<and> creatable \<lparr>dirs = {}, files = [''in.csv'' \<mapsto> ''pincode''], trace = []\<rparr> ''mock-api''
   \<and> main (\<lambda>_. Inr [[''pincode'' \<mapsto> PStr ''110001'']])
         \<lparr>opt_pincsv = Some ''in.csv'', opt_bankcsv = None, opt_outdir = None\<rparr>
         \<lparr>dirs = {}, files = [''in.csv'' \<mapsto> ''pincode''], trace = []\<rparr>
       = (Inr (),
          \<lparr>dirs = {''mock-api''},
           files = [''in.csv'' \<mapsto> ''pincode'',
                    ''mock-api/pincodes.json'' \<mapsto>
                      json_dump (records_json
                        [\<lparr>pincode = ''110001'', officeName = [], district = [], state = []\<rparr>]),
                    ''mock-api/index.json'' \<mapsto>
                      json_dump (index_json
                        [(''110001'',
                          \<lparr>pincode = ''110001'', officeName = [], district = [], state = []\<rparr>)])],
           trace = [Makedirs ''mock-api'', OpenRead ''in.csv'',
                    OpenWrite ''mock-api/pincodes.json'', OpenWrite ''mock-api/index.json'']\<rparr>)"
  using omitted_bankcsv_no_bank_output [of
      "\<lparr>opt_pincsv = Some ''in.csv'', opt_bankcsv = None, opt_outdir = None\<rparr>"
      "''in.csv''" "\<lambda>_. Inr [[''pincode'' \<mapsto> PStr ''110001'']]"
      "\<lparr>dirs = {}, files = [''in.csv'' \<mapsto> ''pincode''], trace = []\<rparr>"
      "''pincode''" "[[''pincode'' \<mapsto> PStr ''110001'']]"]
  by (simp add: world_defs eval_defs upt_conv_Cons)

text \<open>
  C8. Writing the sequence of normalized records as \<open>pincodes.json\<close> and reading the text
  back gives the sequence itself: a list of as many dictionaries, each with the four keys
  and the four strings of its record.
\<close>

theorem pincodes_json_round_trip:
  "json_loads (json_dump (records_json recs)) = Inr (records_json recs)"
  by (rule json_round_trip [OF wf_records_json])

theorem pincodes_json_round_trip_witness:
  "json_loads (json_dump (records_json
       [\<lparr>pincode = ''110001'', officeName = [CHR ''a'', CHR 0x22, CHR 0x5C, CHR 0x0A, CHR 0x01],
         district = [], state = ''Delhi''\<rparr>,
        \<lparr>pincode = ''None'', officeName = ''X'', district = ''D'', state = ''S''\<rparr>]))
     = Inr (JList
        [JDict [(''pincode'', JStr ''110001''),
                (''officeName'', JStr [CHR ''a'', CHR 0x22, CHR 0x5C, CHR 0x0A, CHR 0x01]),
                (''district'', JStr []), (''state'', JStr ''Delhi'')],
         JDict [(''pincode'', JStr ''None''), (''officeName'', JStr ''X''),
                (''district'', JStr ''D''), (''state'', JStr ''S'')]])"
  using pincodes_json_round_trip [of
       "[\<lparr>pincode = ''110001'', officeName = [CHR ''a'', CHR 0x22, CHR 0x5C, CHR 0x0A, CHR 0x01],
          district = [], state = ''Delhi''\<rparr>,
         \<lparr>pincode = ''None'', officeName = ''X'', district = ''D'', state = ''S''\<rparr>]"]
  by (simp add: records_json_def record_json_def)

text \<open>
  C9. After every iteration of the accumulation loop, that is for the state reached on any
  prefix of the rows, the index agrees with the array: no key occurs twice, and every key
  maps to a record with that pincode, which is an element of the array, namely the last
  one with that pincode.
\<close>

theorem index_consistent_every_iteration:
  "index_consistent (foldl pin_step ([], []) (take n rows))"
  using index_of_consistent [of "kept (take n rows)"] by (simp add: foldl_pin_step)

theorem index_consistent_every_iteration_witness:
  "index_consistent
     ([\<lparr>pincode = ''110001'', officeName = [], district = ''A'', state = []\<rparr>,
       \<lparr>pincode = ''110001'', officeName = [], district = ''B'', state = []\<rparr>],
      [(''110001'', \<lparr>pincode = ''110001'', officeName = [], district = ''B'', state = []\<rparr>)])"
  using index_consistent_every_iteration [of 2
      "[[''pincode'' \<mapsto> PStr ''110001'', ''district'' \<mapsto> PStr ''A''],
        [''pincode'' \<mapsto> PStr ''110001'', ''district'' \<mapsto> PStr ''B''],
        [''pincode'' \<mapsto> PStr ''560001'']]"]
  by (simp add: eval_defs)

text \<open>
  C10. The output directory is created before the postal-code table is opened. When the
  directory can be created (it may exist already) and there is no file at the path given
  for \<open>--pincsv\<close>, the run performs exactly two operations, the creation and then the failed
  read, ends with a non-zero exit status and leaves the files as they were; afterwards the
  output directory and its ancestors exist.
\<close>

theorem outdir_created_before_read:
  assumes "opt_pincsv cl = Some p" and "files w p = None" and "creatable w (outdir_of cl)"
  shows "exit_status (fst (main csv cl w)) \<noteq> 0
         \<and> files (snd (main csv cl w)) = files w
         \<and> trace (snd (main csv cl w)) = trace w @ [Makedirs (outdir_of cl), OpenRead p]
         \<and> outdir_of cl \<in> dirs (snd (main csv cl w))
         \<and> set (parents (outdir_of cl)) \<subseteq> dirs (snd (main csv cl w))"
  unfolding main_missing_table(1) [OF assms] by (auto simp: exit_status_def)

theorem outdir_created_before_read_witness:
  "opt_pincsv \<lparr>opt_pincsv = Some ''nope.csv'', opt_bankcsv = None, opt_outdir = Some ''out/api''\<rparr>
     = Some ''nope.csv''
   \<and> files \<lparr>dirs = {}, files = Map.empty, trace = []\<rparr> ''nope.csv'' = None
   \<and> creatable \<lparr>dirs = {}, files = Map.empty, trace = []\<rparr>
         (outdir_of \<lparr>opt_pincsv = Some ''nope.csv'', opt_bankcsv = None, opt_outdir = Some ''out/api''\<rparr>)
   \<and> main (\<lambda>_. Inr [])
         \<lparr>opt_pincsv = Some ''nope.csv'', opt_bankcsv = None, opt_outdir = Some ''out/api''\<rparr>
         \<lparr>dirs = {}, files = Map.empty, trace = []\<rparr>
       = (Inl (FileNotFoundError ''nope.csv''),
          \<lparr>dirs = {''out/api'', ''out''}, files = Map.empty,
           trace = [Makedirs ''out/api'', OpenRead ''nope.csv'']\<rparr>)"
  using outdir_created_before_read [of
      "\<lparr>opt_pincsv = Some ''nope.csv'', opt_bankcsv = None, opt_outdir = Some ''out/api''\<rparr>"
      "''nope.csv''" "\<lparr>dirs = {}, files = Map.empty, trace = []\<rparr>" "\<lambda>_. Inr []"]
  by (simp add: world_defs Let_def upt_conv_Cons)

end
